theory Spec2Isabelle
  imports Complex_Main "HOL-Library.Multiset"
begin

section \<open>FuelEU: compliance balance and pooling (Article 21)\<close>

text \<open>
  A shallow embedding of the two domain services of the repository,
  \<^verbatim>\<open>server/domain/compliance-service.ts\<close> and
  \<^verbatim>\<open>server/domain/pooling-service.ts\<close>.

  Numbers. A TypeScript \<^verbatim>\<open>number\<close> is an IEEE-754 binary64 value. The services are
  embedded twice.
  \<^item> In the first embedding a number is a \<^typ>\<open>real\<close> and arithmetic is exact: there
    is no rounding, no NaN and no infinity. It serves the properties of the comparisons,
    of the error list and of the bookkeeping of members.
  \<^item> In the second embedding (constants with the suffix \<open>64\<close>) a number is a
    \<^emph>\<open>binary64\<close> value: a finite value, an infinity or NaN, every sum, difference
    and product rounded to nearest, ties to even. It serves the properties that rounding,
    NaN or the infinities decide: the value of a computed balance, the equality of two
    computed sums, and whether the loop returns at all.
  Array indices are \<^typ>\<open>int\<close>, since \<^verbatim>\<open>results.length - 1\<close> is \<open>-1\<close> on the
  empty array.
\<close>

section \<open>The services in exact arithmetic\<close>

subsection \<open>Compliance service\<close>

definition TARGET_INTENSITY_2025 :: real where
  "TARGET_INTENSITY_2025 = 89.3368"

definition isCompliant :: "real \<Rightarrow> bool" where
  "isCompliant ghgIntensity = (ghgIntensity \<le> TARGET_INTENSITY_2025)"

subsection \<open>Pooling service: data\<close>

text \<open>
  The argument of \<^verbatim>\<open>allocatePoolBalances\<close> is an array of
  \<^verbatim>\<open>{ shipId, cbBefore }\<close>; its result, and the argument of
  \<^verbatim>\<open>validatePool\<close>, an array of \<^verbatim>\<open>{ shipId, cbBefore, cbAfter }\<close>. The second
  record extends the first, as the object spread \<^verbatim>\<open>{ ...m, cbAfter: m.cbBefore }\<close> does.
\<close>

record Member =
  shipId :: string
  cbBefore :: real

record PoolMember = Member +
  cbAfter :: real

record PoolValidationResult =
  valid :: bool
  errors :: "string list"

text \<open>
  Reading \<^verbatim>\<open>results[i]\<close> outside the array gives \<^verbatim>\<open>undefined\<close>, and the
  property access \<^verbatim>\<open>.cbAfter\<close> on it throws a \<^verbatim>\<open>TypeError\<close>.
\<close>

datatype error = TypeError

subsection \<open>Pooling service: allocation\<close>

text \<open>
  \<^verbatim>\<open>[...members].sort((a, b) => b.cbBefore - a.cbBefore)\<close>: a stable sort of a copy,
  descending in \<^verbatim>\<open>cbBefore\<close>. \<^const>\<open>sort_key\<close> is a stable insertion sort,
  ascending in its key, so the key is the negated balance.
\<close>

definition sorted_members :: "Member list \<Rightarrow> Member list" where
  "sorted_members members = sort_key (\<lambda>m. - cbBefore m) members"

text \<open>\<^verbatim>\<open>sorted.map(m => ({ ...m, cbAfter: m.cbBefore }))\<close>\<close>

definition init_results :: "Member list \<Rightarrow> PoolMember list" where
  "init_results sorted' =
     map (\<lambda>m. \<lparr>shipId = shipId m, cbBefore = cbBefore m, cbAfter = cbBefore m\<rparr>) sorted'"

text \<open>
  \<^verbatim>\<open>results[i]\<close>: the element at index \<open>i\<close>, and \<^verbatim>\<open>undefined\<close> (here \<open>None\<close>)
  outside the array.
\<close>

definition array_get :: "'a list \<Rightarrow> int \<Rightarrow> 'a option" where
  "array_get xs i = (if 0 \<le> i \<and> i < int (length xs) then Some (xs ! nat i) else None)"

text \<open>
  The \<^verbatim>\<open>while (surplusIdx < deficitIdx)\<close> loop, one call per iteration. The state is
  the array \<open>results\<close> and the two cursors; the value is the state on exit. Both
  elements are read first; the error arises where \<^verbatim>\<open>.cbAfter\<close> is first taken of
  an element that is \<^verbatim>\<open>undefined\<close>. The objects \<^verbatim>\<open>surplus\<close> and \<^verbatim>\<open>deficit\<close>
  are distinct elements of the array (the cursors differ inside the loop), so the two
  assignments are two updates of the list.
\<close>

function alloc_loop ::
  "PoolMember list \<Rightarrow> int \<Rightarrow> int \<Rightarrow> error + (PoolMember list \<times> int \<times> int)" where
  "alloc_loop results surplusIdx deficitIdx =
     (if surplusIdx < deficitIdx then
        (case array_get results surplusIdx of
           None \<Rightarrow> Inl TypeError
         | Some surplus \<Rightarrow>
             if cbAfter surplus \<le> 0 then alloc_loop results (surplusIdx + 1) deficitIdx
             else
               (case array_get results deficitIdx of
                  None \<Rightarrow> Inl TypeError
                | Some deficit \<Rightarrow>
                    if cbAfter deficit \<ge> 0 then alloc_loop results surplusIdx (deficitIdx - 1)
                    else
                      let transferAmount = min (cbAfter surplus) \<bar>cbAfter deficit\<bar>;
                          surplus' = surplus\<lparr>cbAfter := cbAfter surplus - transferAmount\<rparr>;
                          deficit' = deficit\<lparr>cbAfter := cbAfter deficit + transferAmount\<rparr>;
                          results' = (results[nat surplusIdx := surplus'])
                                       [nat deficitIdx := deficit'];
                          surplusIdx' = (if cbAfter surplus' \<le> 0 then surplusIdx + 1
                                         else surplusIdx);
                          deficitIdx' = (if cbAfter deficit' \<ge> 0 then deficitIdx - 1
                                         else deficitIdx)
                      in alloc_loop results' surplusIdx' deficitIdx'))
      else Inr (results, surplusIdx, deficitIdx))"
  by pat_completeness auto
termination
proof (relation "measure (\<lambda>(results, surplusIdx, deficitIdx). nat (deficitIdx - surplusIdx))")
  show "wf (measure (\<lambda>(results, surplusIdx, deficitIdx). nat (deficitIdx - surplusIdx)))"
    by simp
qed (auto simp: min_def abs_if split: if_splits)

declare alloc_loop.simps [simp del]

definition allocatePoolBalances :: "Member list \<Rightarrow> error + PoolMember list" where
  "allocatePoolBalances members =
     (let sorted' = sorted_members members;
          results = init_results sorted'
      in case alloc_loop results 0 (int (length results) - 1) of
           Inl e \<Rightarrow> Inl e
         | Inr (results', surplusIdx, deficitIdx) \<Rightarrow> Inr results')"

subsection \<open>Pooling service: validation\<close>

definition rule1_error :: string where
  "rule1_error = ''Total pool sum must be >= 0''"

definition rule2_error :: "string \<Rightarrow> string" where
  "rule2_error sid = ''Ship '' @ sid @ '' would exit worse than entry''"

definition rule3_error :: "string \<Rightarrow> string" where
  "rule3_error sid = ''Ship '' @ sid @ '' would exit with negative CB''"

text \<open>
  \<^verbatim>\<open>members.reduce\<close> and the two \<^verbatim>\<open>for ... of\<close> loops are left folds over the
  array; \<^verbatim>\<open>errors.push\<close> appends at the end.
\<close>

definition validatePool :: "PoolMember list \<Rightarrow> PoolValidationResult" where
  "validatePool members =
     (let totalSum = foldl (\<lambda>sum' m. sum' + cbBefore m) 0 members;
          errors0 = [];
          errors1 = (if totalSum < 0 then errors0 @ [rule1_error] else errors0);
          errors2 = foldl (\<lambda>errs member.
                       if cbBefore member < 0 \<and> cbAfter member < cbBefore member
                       then errs @ [rule2_error (shipId member)] else errs) errors1 members;
          errors3 = foldl (\<lambda>errs member.
                       if cbBefore member > 0 \<and> cbAfter member < 0
                       then errs @ [rule3_error (shipId member)] else errs) errors2 members
      in \<lparr>valid = (length errors3 = 0), errors = errors3\<rparr>)"

subsection \<open>Notions used in the proofs\<close>

text \<open>
  One transfer of the loop body, from the member at index \<open>i\<close> to the member at
  index \<open>j\<close>: the two assignments \<^verbatim>\<open>surplus.cbAfter -= transferAmount\<close> and
  \<^verbatim>\<open>deficit.cbAfter += transferAmount\<close>.
\<close>

definition transfer :: "PoolMember list \<Rightarrow> nat \<Rightarrow> nat \<Rightarrow> PoolMember list" where
  "transfer rs i j =
     (let t = min (cbAfter (rs ! i)) \<bar>cbAfter (rs ! j)\<bar>
      in rs[i := (rs ! i)\<lparr>cbAfter := cbAfter (rs ! i) - t\<rparr>,
            j := (rs ! j)\<lparr>cbAfter := cbAfter (rs ! j) + t\<rparr>])"

text \<open>
  The invariant of the loop for one member: its balance stays between zero and the
  balance it entered with.
\<close>

definition within_entry :: "PoolMember \<Rightarrow> bool" where
  "within_entry m = (min 0 (cbBefore m) \<le> cbAfter m \<and> cbAfter m \<le> max 0 (cbBefore m))"

section \<open>The services in binary64 arithmetic\<close>

subsection \<open>Binary64 numbers\<close>

text \<open>
  A number is a finite value, \<^verbatim>\<open>Infinity\<close>, \<^verbatim>\<open>-Infinity\<close> or \<^verbatim>\<open>NaN\<close>. The two
  zeros are one value: the operations the services use (\<^verbatim>\<open>+\<close>, \<^verbatim>\<open>-\<close>, \<^verbatim>\<open>*\<close>,
  the comparisons, \<^verbatim>\<open>Math.min\<close>, \<^verbatim>\<open>Math.abs\<close>) do not tell \<open>-0\<close> from \<open>+0\<close>
  in anything the services compare or return as a verdict.
\<close>

datatype number = Fin real | PosInf | NegInf | NaN

text \<open>
  Rounding to nearest, ties to even. \<open>expo x\<close> is the exponent of the binade of \<open>x\<close>,
  \<open>\<lfloor>log\<^sub>2 \<bar>x\<bar>\<rfloor>\<close>, and \<open>-1022\<close> for the subnormal numbers and zero; it is found by
  halving or doubling \<open>\<bar>x\<bar>\<close>. The doubles of that binade are the multiples of
  \<open>quantum x\<close>, which is \<open>2\<close> to the power \<open>expo x - 52\<close>; \<open>rne\<close> rounds to the nearest
  integer, a tie to the even one. A result of magnitude \<open>2\<^sup>1\<^sup>0\<^sup>2\<^sup>4\<close> or more is an
  infinity.
\<close>

definition pow2 :: "int \<Rightarrow> real" where
  "pow2 k = (if 0 \<le> k then 2 ^ nat k else 1 / 2 ^ nat (- k))"

function expo_up :: "real \<Rightarrow> int" where
  "expo_up a = (if a < 2 then 0 else expo_up (a / 2) + 1)"
  by pat_completeness auto
termination
proof (relation "measure (\<lambda>a. nat \<lfloor>a\<rfloor>)")
  show "wf (measure (\<lambda>a::real. nat \<lfloor>a\<rfloor>))" by simp
next
  fix a :: real
  assume "\<not> a < 2"
  then have "\<lfloor>a / 2\<rfloor> < \<lfloor>a\<rfloor>" by linarith
  moreover have "0 < \<lfloor>a\<rfloor>" using \<open>\<not> a < 2\<close> by linarith
  ultimately show "(a / 2, a) \<in> measure (\<lambda>a. nat \<lfloor>a\<rfloor>)" by simp
qed

function expo_down :: "real \<Rightarrow> nat \<Rightarrow> int" where
  "expo_down a n = (if 1 \<le> a \<or> n = 0 then 0 else expo_down (2 * a) (n - 1) - 1)"
  by pat_completeness auto
termination
  by (relation "measure (\<lambda>(a, n). n)") auto

declare expo_up.simps [simp del] expo_down.simps [simp del]

definition expo :: "real \<Rightarrow> int" where
  "expo x = (if 1 \<le> \<bar>x\<bar> then expo_up \<bar>x\<bar> else expo_down \<bar>x\<bar> 1022)"

definition rne :: "real \<Rightarrow> int" where
  "rne y = (let f = \<lfloor>y\<rfloor>; r = y - of_int f
            in if r < 1 / 2 then f else if 1 / 2 < r then f + 1
               else if even f then f else f + 1)"

definition quantum :: "real \<Rightarrow> real" where
  "quantum x = pow2 (expo x - 52)"

definition round_real :: "real \<Rightarrow> real" where
  "round_real x = of_int (rne (x / quantum x)) * quantum x"

definition round64 :: "real \<Rightarrow> number" where
  "round64 x = (let r = round_real x
                in if 2 ^ 1024 \<le> r then PosInf
                   else if r \<le> - (2 ^ 1024) then NegInf
                   else Fin r)"

text \<open>The finite doubles are the reals that rounding leaves as they are.\<close>

definition is_double :: "real \<Rightarrow> bool" where
  "is_double x = (round64 x = Fin x)"

fun finite_double :: "number \<Rightarrow> bool" where
  "finite_double (Fin x) = is_double x"
| "finite_double PosInf = False"
| "finite_double NegInf = False"
| "finite_double NaN = False"

text \<open>
  Unary minus, \<^verbatim>\<open>+\<close>, \<^verbatim>\<open>-\<close>, \<^verbatim>\<open>*\<close>, \<^verbatim>\<open><\<close>, \<^verbatim>\<open><=\<close>, \<^verbatim>\<open>Math.abs\<close> and
  \<^verbatim>\<open>Math.min\<close> of ECMAScript. A comparison with NaN is false; \<^verbatim>\<open>a >= b\<close> is
  \<open>fle b a\<close> and \<^verbatim>\<open>a > b\<close> is \<open>flt b a\<close>.
\<close>

fun fneg :: "number \<Rightarrow> number" where
  "fneg (Fin x) = Fin (- x)"
| "fneg PosInf = NegInf"
| "fneg NegInf = PosInf"
| "fneg NaN = NaN"

fun fadd :: "number \<Rightarrow> number \<Rightarrow> number" where
  "fadd (Fin x) (Fin y) = round64 (x + y)"
| "fadd (Fin x) PosInf = PosInf"
| "fadd (Fin x) NegInf = NegInf"
| "fadd PosInf (Fin y) = PosInf"
| "fadd PosInf PosInf = PosInf"
| "fadd PosInf NegInf = NaN"
| "fadd NegInf (Fin y) = NegInf"
| "fadd NegInf NegInf = NegInf"
| "fadd NegInf PosInf = NaN"
| "fadd NaN b = NaN"
| "fadd a NaN = NaN"

definition fsub :: "number \<Rightarrow> number \<Rightarrow> number" where
  "fsub a b = fadd a (fneg b)"

fun fsgn :: "number \<Rightarrow> int" where
  "fsgn (Fin x) = (if x < 0 then - 1 else if x = 0 then 0 else 1)"
| "fsgn PosInf = 1"
| "fsgn NegInf = - 1"
| "fsgn NaN = 0"

fun fmul :: "number \<Rightarrow> number \<Rightarrow> number" where
  "fmul (Fin x) (Fin y) = round64 (x * y)"
| "fmul NaN b = NaN"
| "fmul a NaN = NaN"
| "fmul a b = (if fsgn a * fsgn b = 0 then NaN else if 0 < fsgn a * fsgn b then PosInf else NegInf)"

fun flt :: "number \<Rightarrow> number \<Rightarrow> bool" where
  "flt (Fin x) (Fin y) = (x < y)"
| "flt NaN b = False"
| "flt a NaN = False"
| "flt a NegInf = False"
| "flt PosInf b = False"
| "flt NegInf b = True"
| "flt a PosInf = True"

fun fle :: "number \<Rightarrow> number \<Rightarrow> bool" where
  "fle (Fin x) (Fin y) = (x \<le> y)"
| "fle NaN b = False"
| "fle a NaN = False"
| "fle NegInf b = True"
| "fle a PosInf = True"
| "fle a NegInf = False"
| "fle PosInf b = False"

fun fabs :: "number \<Rightarrow> number" where
  "fabs (Fin x) = Fin \<bar>x\<bar>"
| "fabs PosInf = PosInf"
| "fabs NegInf = PosInf"
| "fabs NaN = NaN"

fun fmin :: "number \<Rightarrow> number \<Rightarrow> number" where
  "fmin NaN b = NaN"
| "fmin a NaN = NaN"
| "fmin a b = (if fle a b then a else b)"

subsection \<open>Compliance service\<close>

text \<open>
  The literal \<^verbatim>\<open>89.3368\<close> denotes the double nearest to it; \<^verbatim>\<open>41000\<close> is a double.
\<close>

definition TARGET_INTENSITY_2025_64 :: number where
  "TARGET_INTENSITY_2025_64 = round64 89.3368"

definition ENERGY_CONVERSION_FACTOR_64 :: number where
  "ENERGY_CONVERSION_FACTOR_64 = round64 41000"

definition calculateComplianceBalance64 :: "number \<Rightarrow> number \<Rightarrow> number" where
  "calculateComplianceBalance64 ghgIntensity fuelConsumption =
     (let energyInScope = fmul fuelConsumption ENERGY_CONVERSION_FACTOR_64;
          cb = fmul (fsub TARGET_INTENSITY_2025_64 ghgIntensity) energyInScope
      in cb)"

subsection \<open>Pooling service\<close>

record Member64 =
  shipId64 :: string
  cbBefore64 :: number

record PoolMember64 = Member64 +
  cbAfter64 :: number

text \<open>
  \<^verbatim>\<open>[...members].sort((a, b) => b.cbBefore - a.cbBefore)\<close>. The comparator is the
  rounded difference; a positive value puts \<open>b\<close> first, and zero and NaN leave the two
  in their order (the sort is stable). The sort is an insertion sort from the right,
  which for a consistent comparator gives the one stable sorted order.
\<close>

definition compare64 :: "Member64 \<Rightarrow> Member64 \<Rightarrow> number" where
  "compare64 a b = fsub (cbBefore64 b) (cbBefore64 a)"

fun insort64 :: "Member64 \<Rightarrow> Member64 list \<Rightarrow> Member64 list" where
  "insort64 x [] = [x]"
| "insort64 x (y # ys) =
     (if flt (Fin 0) (compare64 x y) then y # insort64 x ys else x # y # ys)"

definition sorted_members64 :: "Member64 list \<Rightarrow> Member64 list" where
  "sorted_members64 members = foldr insort64 members []"

definition init_results64 :: "Member64 list \<Rightarrow> PoolMember64 list" where
  "init_results64 sorted' =
     map (\<lambda>m. \<lparr>shipId64 = shipId64 m, cbBefore64 = cbBefore64 m, cbAfter64 = cbBefore64 m\<rparr>)
       sorted'"

text \<open>
  The loop. With NaN in the array an iteration can leave the array and both cursors
  as they were, so the loop need not return: its value is an option, \<open>None\<close> when it
  does not return.
\<close>

partial_function (option) alloc_loop64 ::
  "PoolMember64 list \<Rightarrow> int \<Rightarrow> int \<Rightarrow> (error + (PoolMember64 list \<times> int \<times> int)) option" where
  "alloc_loop64 results surplusIdx deficitIdx =
     (if surplusIdx < deficitIdx then
        (case array_get results surplusIdx of
           None \<Rightarrow> Some (Inl TypeError)
         | Some surplus \<Rightarrow>
             if fle (cbAfter64 surplus) (Fin 0)
             then alloc_loop64 results (surplusIdx + 1) deficitIdx
             else
               (case array_get results deficitIdx of
                  None \<Rightarrow> Some (Inl TypeError)
                | Some deficit \<Rightarrow>
                    if fle (Fin 0) (cbAfter64 deficit)
                    then alloc_loop64 results surplusIdx (deficitIdx - 1)
                    else
                      let transferAmount = fmin (cbAfter64 surplus) (fabs (cbAfter64 deficit));
                          surplus' = surplus\<lparr>cbAfter64 :=
                                       fsub (cbAfter64 surplus) transferAmount\<rparr>;
                          deficit' = deficit\<lparr>cbAfter64 :=
                                       fadd (cbAfter64 deficit) transferAmount\<rparr>;
                          results' = (results[nat surplusIdx := surplus'])
                                       [nat deficitIdx := deficit'];
                          surplusIdx' = (if fle (cbAfter64 surplus') (Fin 0)
                                         then surplusIdx + 1 else surplusIdx);
                          deficitIdx' = (if fle (Fin 0) (cbAfter64 deficit')
                                         then deficitIdx - 1 else deficitIdx)
                      in alloc_loop64 results' surplusIdx' deficitIdx'))
      else Some (Inr (results, surplusIdx, deficitIdx)))"

definition allocatePoolBalances64 :: "Member64 list \<Rightarrow> (error + PoolMember64 list) option" where
  "allocatePoolBalances64 members =
     (let sorted' = sorted_members64 members;
          results = init_results64 sorted'
      in case alloc_loop64 results 0 (int (length results) - 1) of
           None \<Rightarrow> None
         | Some (Inl e) \<Rightarrow> Some (Inl e)
         | Some (Inr (results', surplusIdx, deficitIdx)) \<Rightarrow> Some (Inr results'))"

text \<open>\<^verbatim>\<open>list.reduce((sum, x) => sum + x, 0)\<close>, each sum rounded.\<close>

definition sum64 :: "number list \<Rightarrow> number" where
  "sum64 xs = foldl fadd (Fin 0) xs"

definition validatePool64 :: "PoolMember64 list \<Rightarrow> PoolValidationResult" where
  "validatePool64 members =
     (let totalSum = foldl (\<lambda>sum' m. fadd sum' (cbBefore64 m)) (Fin 0) members;
          errors0 = [];
          errors1 = (if flt totalSum (Fin 0) then errors0 @ [rule1_error] else errors0);
          errors2 = foldl (\<lambda>errs member.
                       if flt (cbBefore64 member) (Fin 0)
                          \<and> flt (cbAfter64 member) (cbBefore64 member)
                       then errs @ [rule2_error (shipId64 member)] else errs) errors1 members;
          errors3 = foldl (\<lambda>errs member.
                       if flt (Fin 0) (cbBefore64 member) \<and> flt (cbAfter64 member) (Fin 0)
                       then errs @ [rule3_error (shipId64 member)] else errs) errors2 members
      in \<lparr>valid = (length errors3 = 0), errors = errors3\<rparr>)"

subsection \<open>Notions used in the proofs\<close>

text \<open>The value of a finite number; the loop invariant for one member; one transfer.\<close>

fun val :: "number \<Rightarrow> real" where
  "val (Fin x) = x"
| "val PosInf = 0"
| "val NegInf = 0"
| "val NaN = 0"

definition within_entry64 :: "PoolMember64 \<Rightarrow> bool" where
  "within_entry64 m =
     (finite_double (cbBefore64 m) \<and> cbAfter64 m = Fin (val (cbAfter64 m))
      \<and> min 0 (val (cbBefore64 m)) \<le> val (cbAfter64 m)
      \<and> val (cbAfter64 m) \<le> max 0 (val (cbBefore64 m)))"

definition transfer64 :: "PoolMember64 list \<Rightarrow> nat \<Rightarrow> nat \<Rightarrow> PoolMember64 list" where
  "transfer64 rs i j =
     (let t = fmin (cbAfter64 (rs ! i)) (fabs (cbAfter64 (rs ! j)))
      in rs[i := (rs ! i)\<lparr>cbAfter64 := fsub (cbAfter64 (rs ! i)) t\<rparr>,
            j := (rs ! j)\<lparr>cbAfter64 := fadd (cbAfter64 (rs ! j)) t\<rparr>])"

text \<open>A number is integer-valued when it is finite and its value is an integer.\<close>

fun int_valued :: "number \<Rightarrow> bool" where
  "int_valued (Fin x) = (x = of_int \<lfloor>x\<rfloor>)"
| "int_valued PosInf = False"
| "int_valued NegInf = False"
| "int_valued NaN = False"

text \<open>
  A state of the loop in which all balances are integers, their absolute values sum to
  at most \<open>2\<^sup>5\<^sup>3\<close>, and their sum is \<open>c\<close>.
\<close>

definition exact_state :: "real \<Rightarrow> PoolMember64 list \<Rightarrow> bool" where
  "exact_state c rs =
     ((\<forall>m \<in> set rs. int_valued (cbAfter64 m))
      \<and> (\<Sum>m\<leftarrow>rs. \<bar>val (cbAfter64 m)\<bar>) \<le> 2 ^ 53
      \<and> (\<Sum>m\<leftarrow>rs. val (cbAfter64 m)) = c)"

text \<open>
  A state of the loop from which an iteration changes nothing: the cursors are
  apart and the balance under each of them is NaN.
\<close>

definition stuck :: "PoolMember64 list \<Rightarrow> int \<Rightarrow> int \<Rightarrow> bool" where
  "stuck rs si di =
     (si < di \<and> 0 \<le> si \<and> di < int (length rs)
      \<and> cbAfter64 (rs ! nat si) = NaN \<and> cbAfter64 (rs ! nat di) = NaN)"

section \<open>Exact arithmetic: the allocation loop\<close>

subsection \<open>One transfer\<close>

lemma length_transfer [simp]: "length (transfer rs i j) = length rs"
  by (simp add: transfer_def Let_def)

lemma sum_list_update_real:
  fixes xs :: "real list"
  shows "k < length xs \<Longrightarrow> sum_list (xs[k := x]) = sum_list xs + x - xs ! k"
  by (induction xs arbitrary: k) (auto simp: nth_Cons split: nat.splits)

lemma map_update_same: "(map f xs)[i := f (xs ! i)] = map f xs"
  by (cases "i < length xs") (simp_all add: list_update_same_conv list_update_beyond)

lemma transfer_shipId: "map shipId (transfer rs i j) = map shipId rs"
  by (simp add: transfer_def Let_def map_update map_update_same)

lemma transfer_cbBefore: "map cbBefore (transfer rs i j) = map cbBefore rs"
  by (simp add: transfer_def Let_def map_update map_update_same)

lemma transfer_sum:
  assumes "i < j" "j < length rs"
  shows "sum_list (map cbAfter (transfer rs i j)) = sum_list (map cbAfter rs)"
  using assms by (simp add: transfer_def Let_def map_update sum_list_update_real)

lemma transfer_within:
  assumes "i < j" "j < length rs" "0 < cbAfter (rs ! i)" "cbAfter (rs ! j) < 0"
    and "list_all within_entry rs"
  shows "list_all within_entry (transfer rs i j)"
proof -
  from assms have wi: "within_entry (rs ! i)" and wj: "within_entry (rs ! j)"
    by (simp_all add: list_all_length)
  let ?t = "min (cbAfter (rs ! i)) \<bar>cbAfter (rs ! j)\<bar>"
  have a: "within_entry ((rs ! i)\<lparr>cbAfter := cbAfter (rs ! i) - ?t\<rparr>)"
    using wi assms(3,4) by (auto simp: within_entry_def min_def max_def abs_if split: if_splits)
  have b: "within_entry ((rs ! j)\<lparr>cbAfter := cbAfter (rs ! j) + ?t\<rparr>)"
    using wj assms(3,4) by (auto simp: within_entry_def min_def max_def abs_if split: if_splits)
  show ?thesis
    using assms(1,2,5) a b
    by (auto simp: transfer_def Let_def list_all_length nth_list_update)
qed

subsection \<open>An invariant rule for the loop\<close>

text \<open>
  Started with the cursors inside the array, the loop returns without an error, with
  the cursors met or crossed, and every property \<open>P\<close> of the array that one transfer
  preserves holds on exit. The induction is on the distance of the cursors, which
  every iteration makes smaller.
\<close>

lemma alloc_loop_rule:
  assumes "P rs" and "0 \<le> si" and "di < int (length rs)"
    and step: "\<And>rs i j. P rs \<Longrightarrow> i < j \<Longrightarrow> j < length rs \<Longrightarrow>
                 0 < cbAfter (rs ! i) \<Longrightarrow> cbAfter (rs ! j) < 0 \<Longrightarrow> P (transfer rs i j)"
  shows "\<exists>rs' si' di'. alloc_loop rs si di = Inr (rs', si', di') \<and> P rs' \<and> di' \<le> si'
           \<and> length rs' = length rs"
  using assms(1-3)
proof (induction "nat (di - si)" arbitrary: rs si di rule: less_induct)
  case less
  show ?case
  proof (cases "si < di")
    case False
    then show ?thesis using less.prems by (simp add: alloc_loop.simps)
  next
    case True
    let ?s = "rs ! nat si" and ?d = "rs ! nat di"
    from True less.prems have rng:
      "array_get rs si = Some ?s" "array_get rs di = Some ?d"
      by (simp_all add: array_get_def)
    consider (a) "cbAfter ?s \<le> 0" | (b) "0 < cbAfter ?s" "0 \<le> cbAfter ?d"
      | (c) "0 < cbAfter ?s" "cbAfter ?d < 0"
      by linarith
    then show ?thesis
    proof cases
      case a
      have eq: "alloc_loop rs si di = alloc_loop rs (si + 1) di"
        using True rng a by (subst alloc_loop.simps) (simp add: Let_def)
      have "\<exists>rs' si' di'. alloc_loop rs (si + 1) di = Inr (rs', si', di') \<and> P rs' \<and> di' \<le> si'
           \<and> length rs' = length rs"
        using True less.prems by (intro less.hyps) auto
      with eq show ?thesis by simp
    next
      case b
      have eq: "alloc_loop rs si di = alloc_loop rs si (di - 1)"
        using True rng b by (subst alloc_loop.simps) (simp add: Let_def)
      have "\<exists>rs' si' di'. alloc_loop rs si (di - 1) = Inr (rs', si', di') \<and> P rs' \<and> di' \<le> si'
           \<and> length rs' = length rs"
        using True less.prems by (intro less.hyps) auto
      with eq show ?thesis by simp
    next
      case c
      define t where "t = min (cbAfter ?s) \<bar>cbAfter ?d\<bar>"
      define si' where "si' = (if cbAfter ?s - t \<le> 0 then si + 1 else si)"
      define di' where "di' = (if cbAfter ?d + t \<ge> 0 then di - 1 else di)"
      have eq: "alloc_loop rs si di = alloc_loop (transfer rs (nat si) (nat di)) si' di'"
        using True rng c
        by (subst alloc_loop.simps) (simp add: Let_def transfer_def t_def si'_def di'_def)
      have P': "P (transfer rs (nat si) (nat di))"
        using True less.prems c by (intro step) auto
      have dec: "nat (di' - si') < nat (di - si)"
        using True c by (auto simp: si'_def di'_def t_def min_def abs_if split: if_splits)
      have "0 \<le> si'" "di' < int (length (transfer rs (nat si) (nat di)))"
        using less.prems by (auto simp: si'_def di'_def)
      from less.hyps[OF dec P' this]
      show ?thesis using eq by simp
    qed
  qed
qed

lemma alloc_loop_props:
  assumes "0 \<le> si" and "di < int (length rs)"
  shows "\<exists>rs' si' di'. alloc_loop rs si di = Inr (rs', si', di') \<and> di' \<le> si'
           \<and> length rs' = length rs
           \<and> map shipId rs' = map shipId rs \<and> map cbBefore rs' = map cbBefore rs
           \<and> sum_list (map cbAfter rs') = sum_list (map cbAfter rs)
           \<and> (list_all within_entry rs' \<or> \<not> list_all within_entry rs)"
proof -
  let ?P = "\<lambda>rs'. map shipId rs' = map shipId rs \<and> map cbBefore rs' = map cbBefore rs
           \<and> sum_list (map cbAfter rs') = sum_list (map cbAfter rs)
           \<and> (list_all within_entry rs' \<or> \<not> list_all within_entry rs)"
  have "\<exists>rs' si' di'. alloc_loop rs si di = Inr (rs', si', di') \<and> ?P rs' \<and> di' \<le> si'
           \<and> length rs' = length rs"
  proof (rule alloc_loop_rule[where P = ?P, OF _ assms])
    show "?P rs" by simp
  next
    fix xs i j
    assume "?P xs" "i < j" "j < length xs" "0 < cbAfter (xs ! i)" "cbAfter (xs ! j) < 0"
    then show "?P (transfer xs i j)"
      using transfer_within[of i j xs]
      by (auto simp: transfer_shipId transfer_cbBefore transfer_sum)
  qed
  then show ?thesis by blast
qed

subsection \<open>Sorting and initialisation\<close>

lemma init_results_within: "list_all within_entry (init_results ms)"
  by (simp add: init_results_def list_all_iff within_entry_def)

lemma init_results_fields:
  "map shipId (init_results ms) = map shipId ms"
  "map cbBefore (init_results ms) = map cbBefore ms"
  "map cbAfter (init_results ms) = map cbBefore ms"
  "length (init_results ms) = length ms"
  by (simp_all add: init_results_def comp_def)

lemma sorted_members_mset: "mset (sorted_members ms) = mset ms"
  by (simp add: sorted_members_def)

lemma sum_list_mset_eq:
  fixes f :: "'a \<Rightarrow> real"
  assumes "mset xs = mset ys"
  shows "sum_list (map f xs) = sum_list (map f ys)"
proof -
  have "mset (map f xs) = mset (map f ys)" using assms by (metis mset_map)
  then show ?thesis by (metis sum_mset_sum_list)
qed

lemma pair_map_zip: "map (\<lambda>m. (f m, g m)) xs = zip (map f xs) (map g xs)"
  by (induction xs) simp_all

subsection \<open>The allocator as a whole\<close>

lemma allocatePoolBalances_props:
  "\<exists>rs si di. alloc_loop (init_results (sorted_members ms)) 0
                 (int (length (init_results (sorted_members ms))) - 1) = Inr (rs, si, di)
     \<and> di \<le> si
     \<and> allocatePoolBalances ms = Inr rs
     \<and> length rs = length ms
     \<and> map shipId rs = map shipId (sorted_members ms)
     \<and> map cbBefore rs = map cbBefore (sorted_members ms)
     \<and> sum_list (map cbAfter rs) = sum_list (map cbBefore ms)
     \<and> list_all within_entry rs"
proof -
  let ?r0 = "init_results (sorted_members ms)"
  have "(0::int) \<le> 0" "int (length ?r0) - 1 < int (length ?r0)" by simp_all
  from alloc_loop_props[OF this] obtain rs si di where
    l: "alloc_loop ?r0 0 (int (length ?r0) - 1) = Inr (rs, si, di)" and "di \<le> si"
    and "length rs = length ?r0" "map shipId rs = map shipId ?r0"
      "map cbBefore rs = map cbBefore ?r0"
      "sum_list (map cbAfter rs) = sum_list (map cbAfter ?r0)"
      "list_all within_entry rs \<or> \<not> list_all within_entry ?r0"
    by blast
  moreover have "allocatePoolBalances ms = Inr rs"
    using l by (simp add: allocatePoolBalances_def Let_def)
  moreover have "length ?r0 = length ms"
    using mset_eq_length[OF sorted_members_mset[of ms]] by (simp add: init_results_fields)
  moreover have "sum_list (map cbBefore (sorted_members ms)) = sum_list (map cbBefore ms)"
    by (rule sum_list_mset_eq[OF sorted_members_mset])
  ultimately show ?thesis
    by (auto simp: init_results_fields init_results_within)
qed

lemma within_entry_no_violation:
  assumes "list_all within_entry rs"
  shows "filter (\<lambda>m. cbBefore m < 0 \<and> cbAfter m < cbBefore m) rs = []"
    and "filter (\<lambda>m. 0 < cbBefore m \<and> cbAfter m < 0) rs = []"
  using assms by (auto simp: filter_empty_conv list_all_iff within_entry_def min_def max_def split: if_splits)

lemma within_entry_signs:
  assumes "within_entry m"
  shows "0 < cbBefore m \<longrightarrow> 0 \<le> cbAfter m" and "cbBefore m < 0 \<longrightarrow> cbAfter m \<le> 0"
  using assms unfolding within_entry_def by linarith+

section \<open>Exact arithmetic: validation\<close>


lemma foldl_push:
  "foldl (\<lambda>errs m. if p m then errs @ [g m] else errs) e ms = e @ map g (filter p ms)"
  by (induction ms arbitrary: e) simp_all





section \<open>Binary64: rounding\<close>

subsection \<open>Powers of two and the exponent\<close>

lemma pow2_powr: "pow2 k = 2 powr (of_int k)"
proof (cases "0 \<le> k")
  case True
  then show ?thesis by (simp add: pow2_def powr_realpow[symmetric])
next
  case False
  then have k: "real_of_int k = - real (nat (- k))" by simp
  have "2 powr (real_of_int k) = 1 / 2 powr real (nat (- k))"
    unfolding k by (rule powr_minus_divide)
  also have "\<dots> = 1 / 2 ^ nat (- k)" by (simp add: powr_realpow)
  finally show ?thesis using False by (simp add: pow2_def)
qed

lemma pow2_pos [simp]: "0 < pow2 k"
  by (simp add: pow2_powr)

lemma pow2_add: "pow2 (a + b) = pow2 a * pow2 b"
  by (simp add: pow2_powr powr_add)

lemma pow2_0 [simp]: "pow2 0 = 1" and pow2_1 [simp]: "pow2 1 = 2"
  by (simp_all add: pow2_def)

lemma pow2_succ: "pow2 (k + 1) = 2 * pow2 k"
  by (simp add: pow2_add)

lemma pow2_pred: "pow2 (k - 1) = pow2 k / 2"
  using pow2_succ[of "k - 1"] by simp

lemma pow2_mono: "a \<le> b \<Longrightarrow> pow2 a \<le> pow2 b"
  by (simp add: pow2_powr)

lemma pow2_inj_le: "pow2 a \<le> pow2 b \<Longrightarrow> a \<le> b"
  by (simp add: pow2_powr)

lemma expo_up_spec:
  "1 \<le> a \<Longrightarrow> 0 \<le> expo_up a \<and> pow2 (expo_up a) \<le> a \<and> a < pow2 (expo_up a + 1)"
proof (induction a rule: expo_up.induct)
  case (1 a)
  show ?case
  proof (cases "a < 2")
    case True
    with "1.prems" show ?thesis by (simp add: expo_up.simps)
  next
    case False
    define k where "k = expo_up (a / 2)"
    from False have "1 \<le> a / 2" by simp
    from "1.IH"[OF False this]
    have ih: "0 \<le> k" "pow2 k \<le> a / 2" "a / 2 < pow2 (k + 1)" by (simp_all add: k_def)
    have eq: "expo_up a = k + 1"
      using False by (subst expo_up.simps) (simp add: k_def)
    have "pow2 (k + 1) = 2 * pow2 k" "pow2 (k + 1 + 1) = 2 * pow2 (k + 1)"
      by (rule pow2_succ)+
    with ih show ?thesis unfolding eq by linarith
  qed
qed

lemma expo_down_spec:
  "0 \<le> a \<Longrightarrow> a < 2 \<Longrightarrow>
     - int n \<le> expo_down a n \<and> expo_down a n \<le> 0 \<and> a < pow2 (expo_down a n + 1)
     \<and> (expo_down a n = - int n \<or> pow2 (expo_down a n) \<le> a)"
proof (induction a n rule: expo_down.induct)
  case (1 a n)
  show ?case
  proof (cases "1 \<le> a \<or> n = 0")
    case True
    then have "expo_down a n = 0" by (subst expo_down.simps) simp
    with True "1.prems" show ?thesis by auto
  next
    case False
    define k where "k = expo_down (2 * a) (n - 1)"
    from False have "0 \<le> 2 * a" "2 * a < 2" using "1.prems" by simp_all
    from "1.IH"[OF False this]
    have ih: "- int (n - 1) \<le> k" "k \<le> 0" "2 * a < pow2 (k + 1)"
      "k = - int (n - 1) \<or> pow2 k \<le> 2 * a"
      by (simp_all add: k_def)
    have eq: "expo_down a n = k - 1"
      using False by (subst expo_down.simps) (simp add: k_def)
    have p: "pow2 (k - 1 + 1) = pow2 (k + 1) / 2" "pow2 (k - 1) = pow2 k / 2"
      using pow2_succ[of k] pow2_pred[of k] by simp_all
    from False have n: "int (n - 1) = int n - 1" by simp
    show ?thesis unfolding eq p using ih n by linarith
  qed
qed

lemma expo_ge: "- 1022 \<le> expo x"
  using expo_up_spec[of "\<bar>x\<bar>"] expo_down_spec[of "\<bar>x\<bar>" 1022]
  by (auto simp: expo_def)

lemma expo_upper: "\<bar>x\<bar> < pow2 (expo x + 1)"
  using expo_up_spec[of "\<bar>x\<bar>"] expo_down_spec[of "\<bar>x\<bar>" 1022]
  by (auto simp: expo_def)

lemma expo_lower: "expo x = - 1022 \<or> pow2 (expo x) \<le> \<bar>x\<bar>"
  using expo_up_spec[of "\<bar>x\<bar>"] expo_down_spec[of "\<bar>x\<bar>" 1022]
  by (auto simp: expo_def)

subsection \<open>Rounding is monotone\<close>

lemma rne_int [simp]: "rne (of_int n) = n"
  by (simp add: rne_def)

lemma rne_bounds: "\<lfloor>y\<rfloor> \<le> rne y" "rne y \<le> \<lfloor>y\<rfloor> + 1"
  by (simp_all add: rne_def Let_def)

lemma rne_mono: "y \<le> z \<Longrightarrow> rne y \<le> rne z"
proof -
  assume le: "y \<le> z"
  then have "\<lfloor>y\<rfloor> \<le> \<lfloor>z\<rfloor>" by (rule floor_mono)
  then consider "\<lfloor>y\<rfloor> = \<lfloor>z\<rfloor>" | "\<lfloor>y\<rfloor> + 1 \<le> \<lfloor>z\<rfloor>" by linarith
  then show ?thesis
  proof cases
    case 1
    define f where "f = \<lfloor>z\<rfloor>"
    have "y - of_int f \<le> z - of_int f" using le by simp
    then show ?thesis unfolding rne_def Let_def 1 f_def[symmetric]
      by (simp split: if_splits)
  next
    case 2
    with rne_bounds(2)[of y] rne_bounds(1)[of z] show ?thesis by linarith
  qed
qed

lemma quantum_pos [simp]: "0 < quantum x"
  by (simp add: quantum_def)

lemma round_real_0 [simp]: "round_real 0 = 0"
  by (simp add: round_real_def rne_def)

lemma pow2_expo: "pow2 (expo x) = 2 ^ 52 * quantum x"
proof -
  have "pow2 (expo x) = pow2 (52 + (expo x - 52))" by simp
  also have "\<dots> = pow2 52 * pow2 (expo x - 52)" by (rule pow2_add)
  also have "pow2 52 = 2 ^ 52" by (simp add: pow2_def)
  finally show ?thesis by (simp add: quantum_def)
qed

lemma pow2_expo_succ: "pow2 (expo x + 1) = 2 ^ 53 * quantum x"
  using pow2_expo[of x] by (simp add: pow2_succ)

lemma round_real_le:
  assumes "x \<le> of_int n * quantum x"
  shows "round_real x \<le> of_int n * quantum x"
proof -
  from assms have "x / quantum x \<le> of_int n"
    by (simp add: pos_divide_le_eq)
  then have "rne (x / quantum x) \<le> n"
    using rne_mono[of "x / quantum x" "of_int n"] by simp
  then have "real_of_int (rne (x / quantum x)) \<le> of_int n" by simp
  then show ?thesis unfolding round_real_def
    by (rule mult_right_mono) (simp add: less_imp_le)
qed

lemma round_real_ge:
  assumes "of_int n * quantum x \<le> x"
  shows "of_int n * quantum x \<le> round_real x"
proof -
  from assms have "of_int n \<le> x / quantum x"
    by (simp add: pos_le_divide_eq)
  then have "n \<le> rne (x / quantum x)"
    using rne_mono[of "of_int n" "x / quantum x"] by simp
  then have "real_of_int n \<le> of_int (rne (x / quantum x))" by simp
  then show ?thesis unfolding round_real_def
    by (rule mult_right_mono) (simp add: less_imp_le)
qed

lemma round_real_upper: "round_real x \<le> pow2 (expo x + 1)"
proof -
  have "x \<le> pow2 (expo x + 1)" using expo_upper[of x] by linarith
  then have "x \<le> of_int (2 ^ 53) * quantum x" by (simp add: pow2_expo_succ)
  from round_real_le[OF this] show ?thesis by (simp add: pow2_expo_succ)
qed

lemma round_real_lower: "- pow2 (expo x + 1) \<le> round_real x"
proof -
  have "- pow2 (expo x + 1) \<le> x" using expo_upper[of x] by linarith
  then have "of_int (- (2 ^ 53)) * quantum x \<le> x" by (simp add: pow2_expo_succ)
  from round_real_ge[OF this] show ?thesis by (simp add: pow2_expo_succ)
qed

lemma round_real_big_pos:
  assumes "pow2 (expo x) \<le> x"
  shows "pow2 (expo x) \<le> round_real x"
proof -
  from assms have "of_int (2 ^ 52) * quantum x \<le> x" by (simp add: pow2_expo)
  from round_real_ge[OF this] show ?thesis by (simp add: pow2_expo)
qed

lemma round_real_big_neg:
  assumes "x \<le> - pow2 (expo x)"
  shows "round_real x \<le> - pow2 (expo x)"
proof -
  from assms have "x \<le> of_int (- (2 ^ 52)) * quantum x" by (simp add: pow2_expo)
  from round_real_le[OF this] show ?thesis by (simp add: pow2_expo)
qed

lemma round_real_mono:
  assumes "x \<le> y"
  shows "round_real x \<le> round_real y"
proof -
  consider (eq) "expo x = expo y" | (lt) "expo x < expo y" | (gt) "expo y < expo x"
    by linarith
  then show ?thesis
  proof cases
    case eq
    then have q: "quantum x = quantum y" by (simp add: quantum_def)
    have "x / quantum y \<le> y / quantum y"
      using assms by (simp add: divide_right_mono less_imp_le)
    then have "real_of_int (rne (x / quantum y)) \<le> of_int (rne (y / quantum y))"
      using rne_mono by simp
    then show ?thesis unfolding round_real_def q
      by (rule mult_right_mono) (simp add: less_imp_le)
  next
    case lt
    with expo_ge[of x] have "expo y \<noteq> - 1022" by linarith
    with expo_lower[of y] have ly: "pow2 (expo y) \<le> \<bar>y\<bar>" by simp
    have le: "pow2 (expo x + 1) \<le> pow2 (expo y)" using lt by (intro pow2_mono) simp
    with expo_upper[of x] ly have "\<bar>x\<bar> < \<bar>y\<bar>" by linarith
    with assms have "0 < y" by linarith
    with ly have "pow2 (expo y) \<le> y" by simp
    from round_real_big_pos[OF this] round_real_upper[of x] le show ?thesis by linarith
  next
    case gt
    with expo_ge[of y] have "expo x \<noteq> - 1022" by linarith
    with expo_lower[of x] have lx: "pow2 (expo x) \<le> \<bar>x\<bar>" by simp
    have le: "pow2 (expo y + 1) \<le> pow2 (expo x)" using gt by (intro pow2_mono) simp
    with expo_upper[of y] lx have "\<bar>y\<bar> < \<bar>x\<bar>" by linarith
    with assms have "x < 0" by linarith
    with lx have "x \<le> - pow2 (expo x)" by simp
    from round_real_big_neg[OF this] round_real_lower[of y] le show ?thesis by linarith
  qed
qed

lemma is_doubleD:
  assumes "is_double x"
  shows "round_real x = x" and "x < 2 ^ 1024" and "- (2 ^ 1024) < x"
  using assms by (auto simp: is_double_def round64_def Let_def split: if_splits)

lemma is_double_0 [simp]: "is_double 0"
  by (simp add: is_double_def round64_def)

lemma round64_0 [simp]: "round64 0 = Fin 0"
  by (simp add: round64_def)

lemma round64_between:
  assumes "is_double lo" and "is_double hi" and "lo \<le> x" and "x \<le> hi"
  shows "\<exists>r. round64 x = Fin r \<and> lo \<le> r \<and> r \<le> hi"
proof -
  have "round_real lo \<le> round_real x" "round_real x \<le> round_real hi"
    using assms(3,4) by (simp_all add: round_real_mono)
  with is_doubleD[OF assms(1)] is_doubleD[OF assms(2)]
  have "lo \<le> round_real x" "round_real x \<le> hi" "round_real x < 2 ^ 1024"
    "- (2 ^ 1024) < round_real x"
    by linarith+
  then show ?thesis by (simp add: round64_def Let_def)
qed

subsection \<open>Integers up to \<open>2\<^sup>5\<^sup>3\<close> are doubles\<close>

lemma round_real_grid:
  assumes "x = of_int m * quantum x"
  shows "round_real x = x"
proof -
  have "x / quantum x = of_int m"
    using assms quantum_pos[of x] by (simp add: nonzero_divide_eq_eq less_imp_neq[symmetric])
  then show ?thesis unfolding round_real_def using assms by simp
qed

lemma round_real_int:
  assumes "\<bar>n\<bar> \<le> 2 ^ 53"
  shows "round_real (of_int n) = of_int n"
proof (cases "n = 0")
  case True
  then show ?thesis by simp
next
  case False
  define x :: real where "x = of_int n"
  define e where "e = expo x"
  from False have x1: "1 \<le> \<bar>x\<bar>" unfolding x_def by (simp flip: of_int_abs)
  have x53: "\<bar>x\<bar> \<le> 2 ^ 53"
  proof -
    have "real_of_int \<bar>n\<bar> \<le> real_of_int (2 ^ 53)" using assms by (rule of_int_le_iff[THEN iffD2])
    then show ?thesis by (simp add: x_def)
  qed
  from x1 have eu: "e = expo_up \<bar>x\<bar>" by (simp add: e_def expo_def)
  from expo_up_spec[OF x1] have e0: "0 \<le> e" and lo: "pow2 e \<le> \<bar>x\<bar>" and hi: "\<bar>x\<bar> < pow2 (e + 1)"
    by (simp_all add: eu)
  have p53: "pow2 53 = 2 ^ 53" by (simp add: pow2_def)
  from lo x53 have "pow2 e \<le> pow2 53" by (simp add: p53)
  then have e53: "e \<le> 53" by (rule pow2_inj_le)
  have q: "quantum x = pow2 (e - 52)" by (simp add: quantum_def e_def)
  have "\<exists>m. x = of_int m * quantum x"
  proof (cases "e \<le> 52")
    case True
    define k where "k = nat (52 - e)"
    have "pow2 (e - 52) * 2 ^ k = 1"
    proof -
      have "pow2 (e - 52) * pow2 (52 - e) = pow2 0" by (simp flip: pow2_add)
      moreover have "pow2 (52 - e) = 2 ^ k" using True by (simp add: pow2_def k_def)
      ultimately show ?thesis by simp
    qed
    then have "real_of_int n * (2 ^ k * pow2 (e - 52)) = real_of_int n"
      by (simp add: mult.commute)
    then have "x = of_int (n * 2 ^ k) * quantum x"
      unfolding q by (simp add: x_def mult.assoc)
    then show ?thesis ..
  next
    case False
    with e53 have e: "e = 53" by simp
    with lo x53 have ax: "\<bar>x\<bar> = 2 ^ 53" by (simp add: p53)
    have q2: "quantum x = 2" by (simp add: q e)
    from ax have "x = 2 ^ 53 \<or> x = - (2 ^ 53)" by (auto simp: abs_if split: if_splits)
    then show ?thesis
    proof
      assume "x = 2 ^ 53"
      then have "x = of_int (2 ^ 52) * quantum x" by (subst q2) simp
      then show ?thesis ..
    next
      assume "x = - (2 ^ 53)"
      then have "x = of_int (- (2 ^ 52)) * quantum x" by (subst q2) simp
      then show ?thesis ..
    qed
  qed
  then obtain m where "x = of_int m * quantum x" ..
  then have "round_real x = x" by (rule round_real_grid)
  then show ?thesis by (simp add: x_def)
qed

lemma round64_int:
  assumes "\<bar>n\<bar> \<le> 2 ^ 53"
  shows "round64 (of_int n) = Fin (of_int n)"
proof -
  have "real_of_int \<bar>n\<bar> \<le> real_of_int (2 ^ 53)" using assms by (rule of_int_le_iff[THEN iffD2])
  then have "\<bar>real_of_int n\<bar> \<le> 2 ^ 53" by simp
  moreover have "(2::real) ^ 53 < 2 ^ 1024" by simp
  ultimately have "real_of_int n < 2 ^ 1024" "- (2 ^ 1024) < real_of_int n" by linarith+
  then show ?thesis by (simp add: round64_def round_real_int[OF assms])
qed

lemma round64_exact:
  assumes "x \<in> \<int>" and "\<bar>x\<bar> \<le> 2 ^ 53"
  shows "round64 x = Fin x"
proof -
  from assms(1) obtain n where n: "x = of_int n" by (rule Ints_cases)
  with assms(2) have "\<bar>real_of_int n\<bar> \<le> real_of_int (2 ^ 53)" by simp
  then have "\<bar>n\<bar> \<le> 2 ^ 53" by (simp only: of_int_le_iff flip: of_int_abs)
  from round64_int[OF this] n show ?thesis by simp
qed

lemma int_valued_Fin: "int_valued (Fin x) = (x \<in> \<int>)"
proof
  assume "int_valued (Fin x)"
  then have "x = of_int \<lfloor>x\<rfloor>" by simp
  then show "x \<in> \<int>" by (metis Ints_of_int)
next
  assume "x \<in> \<int>"
  then show "int_valued (Fin x)" by (auto elim: Ints_cases)
qed

declare int_valued.simps(1) [simp del]

declare int_valued_Fin [simp]

lemma int_valuedE:
  assumes "int_valued a"
  obtains x where "a = Fin x" "x \<in> \<int>"
  using assms by (cases a) simp_all

lemma int_valued_finite_double:
  assumes "int_valued a" and "\<bar>val a\<bar> \<le> 2 ^ 53"
  shows "finite_double a"
  using assms by (cases a) (simp_all add: is_double_def round64_exact)

lemma fadd_exact:
  assumes "x \<in> \<int>" "y \<in> \<int>" "\<bar>x + y\<bar> \<le> 2 ^ 53"
  shows "fadd (Fin x) (Fin y) = Fin (x + y)"
  using assms by (simp add: round64_exact)

lemma elem_le_sum_list:
  fixes g :: "'a \<Rightarrow> real"
  assumes "x \<in> set xs" and "\<forall>y \<in> set xs. 0 \<le> g y"
  shows "g x \<le> sum_list (map g xs)"
  using assms
proof (induction xs)
  case Nil
  then show ?case by simp
next
  case (Cons y ys)
  have "0 \<le> sum_list (map g ys)" using Cons.prems(2) by (intro sum_list_nonneg) auto
  with Cons show ?case by auto
qed

lemma foldl_fadd_exact:
  assumes "a \<in> \<int>" and "\<forall>x \<in> set xs. int_valued x"
    and "\<bar>a\<bar> + (\<Sum>x\<leftarrow>xs. \<bar>val x\<bar>) \<le> 2 ^ 53"
  shows "foldl fadd (Fin a) xs = Fin (a + (\<Sum>x\<leftarrow>xs. val x))"
  using assms
proof (induction xs arbitrary: a)
  case Nil
  then show ?case by simp
next
  case (Cons x xs)
  from Cons.prems(2) obtain v where v: "x = Fin v" "v \<in> \<int>"
    by (auto elim: int_valuedE)
  have nn: "0 \<le> (\<Sum>x\<leftarrow>xs. \<bar>val x\<bar>)" by (intro sum_list_nonneg) auto
  have b: "\<bar>a + v\<bar> \<le> 2 ^ 53" using Cons.prems(3) nn v by simp
  have s: "fadd (Fin a) (Fin v) = Fin (a + v)"
    using Cons.prems(1) v(2) b by (rule fadd_exact)
  have i: "a + v \<in> \<int>" using Cons.prems(1) v(2) by (rule Ints_add)
  have "foldl fadd (Fin (a + v)) xs = Fin (a + v + (\<Sum>x\<leftarrow>xs. val x))"
    using i Cons.prems(2,3) v by (intro Cons.IH) auto
  then show ?case unfolding v foldl_Cons s by (simp add: add.assoc)
qed

lemma sum64_exact:
  assumes "\<forall>x \<in> set xs. int_valued x" and "(\<Sum>x\<leftarrow>xs. \<bar>val x\<bar>) \<le> 2 ^ 53"
  shows "sum64 xs = Fin (\<Sum>x\<leftarrow>xs. val x)"
  using foldl_fadd_exact[of 0 xs] assms by (simp add: sum64_def)

subsection \<open>Evaluation\<close>

text \<open>
  The equations that evaluate the binary64 operations and the services on numerals.
  Zero is rounded without the search for its exponent.
\<close>

lemma round64_nonzero:
  "round64 x = (if x = 0 then Fin 0
                else let r = round_real x
                     in if 2 ^ 1024 \<le> r then PosInf
                        else if r \<le> - (2 ^ 1024) then NegInf
                        else Fin r)"
  by (simp add: round64_def)

lemmas binary64_eval = round64_nonzero round_real_def quantum_def expo_def rne_def pow2_def
  expo_up.simps expo_down.simps Let_def fsub_def is_double_def

lemmas pool64_eval = allocatePoolBalances64_def sorted_members64_def init_results64_def
  compare64_def alloc_loop64.simps array_get_def validatePool64_def sum64_def

text \<open>Some values of the rounding, as every binary64 implementation gives them.\<close>

lemma binary64_known_values:
  "round64 0.1 = Fin (3602879701896397 / 2 ^ 55)"
  "fadd (round64 0.1) (round64 0.2) = Fin (1351079888211149 / 2 ^ 52)"
  "round64 0.3 = Fin (5404319552844595 / 2 ^ 54)"
  "round64 (2 ^ 53 + 1) = Fin (2 ^ 53)"
  "round64 (2 ^ 53 + 3) = Fin (2 ^ 53 + 4)"
  by (simp_all add: binary64_eval)

section \<open>Binary64: the allocation loop\<close>

subsection \<open>One transfer\<close>

lemma length_transfer64 [simp]: "length (transfer64 rs i j) = length rs"
  by (simp add: transfer64_def Let_def)

lemma finite_doubleE:
  assumes "finite_double a"
  obtains x where "a = Fin x" "is_double x"
  using assms by (cases a) simp_all

lemma within_entry64D:
  assumes "within_entry64 m"
  obtains b a where "cbBefore64 m = Fin b" "is_double b" "cbAfter64 m = Fin a"
    "min 0 b \<le> a" "a \<le> max 0 b"
proof -
  from assms have "finite_double (cbBefore64 m)" by (simp add: within_entry64_def)
  then obtain b where b: "cbBefore64 m = Fin b" "is_double b" by (rule finite_doubleE)
  from assms have "cbAfter64 m = Fin (val (cbAfter64 m))"
    "min 0 (val (cbBefore64 m)) \<le> val (cbAfter64 m)"
    "val (cbAfter64 m) \<le> max 0 (val (cbBefore64 m))"
    by (simp_all add: within_entry64_def)
  with b show ?thesis by (intro that[of b "val (cbAfter64 m)"]) simp_all
qed

lemma surplus_step:
  assumes w: "within_entry64 m" and s: "cbAfter64 m = Fin s" and "0 \<le> t" "t \<le> s"
  shows "within_entry64 (m\<lparr>cbAfter64 := fsub (Fin s) (Fin t)\<rparr>)"
proof -
  from w obtain b a where b: "cbBefore64 m = Fin b" "is_double b" and a: "cbAfter64 m = Fin a"
    "min 0 b \<le> a" "a \<le> max 0 b"
    by (rule within_entry64D)
  from a s have [simp]: "a = s" by simp
  show ?thesis
  proof (cases "0 \<le> b")
    case True
    have "\<exists>r. round64 (s - t) = Fin r \<and> 0 \<le> r \<and> r \<le> b"
      using a assms(3,4) True by (intro round64_between b) (simp_all add: max_def)
    then show ?thesis using b True
      by (auto simp: within_entry64_def fsub_def max_def min_def)
  next
    case False
    then have "b \<le> s" "s \<le> 0" using a by (simp_all add: min_def max_def)
    have "\<exists>r. round64 (s - t) = Fin r \<and> b \<le> r \<and> r \<le> 0"
      using a assms(3,4) False by (intro round64_between b) (simp_all add: max_def min_def)
    then show ?thesis using b False
      by (auto simp: within_entry64_def fsub_def max_def min_def)
  qed
qed

lemma deficit_step:
  assumes w: "within_entry64 m" and d: "cbAfter64 m = Fin d" and "0 \<le> t" "d + t \<le> 0"
  shows "within_entry64 (m\<lparr>cbAfter64 := fadd (Fin d) (Fin t)\<rparr>)"
proof -
  from w obtain b a where b: "cbBefore64 m = Fin b" "is_double b" and a: "cbAfter64 m = Fin a"
    "min 0 b \<le> a" "a \<le> max 0 b"
    by (rule within_entry64D)
  from a d have [simp]: "a = d" by simp
  show ?thesis
  proof (cases "0 \<le> b")
    case True
    then have "0 \<le> d" using a by (simp add: min_def)
    have "\<exists>r. round64 (d + t) = Fin r \<and> 0 \<le> r \<and> r \<le> b"
      using a assms(3,4) True \<open>0 \<le> d\<close> by (intro round64_between b) (simp_all add: max_def)
    then show ?thesis using b True
      by (auto simp: within_entry64_def max_def min_def)
  next
    case False
    have "\<exists>r. round64 (d + t) = Fin r \<and> b \<le> r \<and> r \<le> 0"
      using a assms(3,4) False by (intro round64_between b) (simp_all add: max_def min_def)
    then show ?thesis using b False
      by (auto simp: within_entry64_def max_def min_def)
  qed
qed

lemma transfer64_eq:
  assumes "cbAfter64 (rs ! i) = Fin s" "cbAfter64 (rs ! j) = Fin d"
  shows "transfer64 rs i j =
           rs[i := (rs ! i)\<lparr>cbAfter64 := fsub (Fin s) (Fin (min s \<bar>d\<bar>))\<rparr>,
              j := (rs ! j)\<lparr>cbAfter64 := fadd (Fin d) (Fin (min s \<bar>d\<bar>))\<rparr>]"
  using assms by (simp add: transfer64_def Let_def min_def)

lemma transfer64_within:
  assumes "i < j" "j < length rs" and "cbAfter64 (rs ! i) = Fin s" "cbAfter64 (rs ! j) = Fin d"
    and "0 < s" "d < 0" and w: "list_all within_entry64 rs"
  shows "list_all within_entry64 (transfer64 rs i j)"
proof -
  from assms(1,2) w have wi: "within_entry64 (rs ! i)" and wj: "within_entry64 (rs ! j)"
    by (simp_all add: list_all_length)
  let ?t = "min s \<bar>d\<bar>"
  have t: "0 \<le> ?t" "?t \<le> s" "d + ?t \<le> 0" using assms(5,6) by (simp_all add: min_def)
  have a: "within_entry64 ((rs ! i)\<lparr>cbAfter64 := fsub (Fin s) (Fin ?t)\<rparr>)"
    using wi assms(3) t(1,2) by (rule surplus_step)
  have b: "within_entry64 ((rs ! j)\<lparr>cbAfter64 := fadd (Fin d) (Fin ?t)\<rparr>)"
    using wj assms(4) t(1,3) by (rule deficit_step)
  show ?thesis
    unfolding transfer64_eq[OF assms(3,4)]
    using assms(1,2) w a b by (auto simp: list_all_length nth_list_update)
qed

lemma transfer64_progress:
  assumes "0 < s" "d < 0"
  shows "fsub (Fin s) (Fin (min s \<bar>d\<bar>)) = Fin 0 \<or> fadd (Fin d) (Fin (min s \<bar>d\<bar>)) = Fin 0"
  using assms by (auto simp: fsub_def min_def)

lemma transfer64_shipId: "map shipId64 (transfer64 rs i j) = map shipId64 rs"
  by (simp add: transfer64_def Let_def map_update map_update_same)

lemma transfer64_cbBefore: "map cbBefore64 (transfer64 rs i j) = map cbBefore64 rs"
  by (simp add: transfer64_def Let_def map_update map_update_same)

lemma sum_list_two_updates:
  fixes g :: "'a \<Rightarrow> real"
  assumes "i < j" "j < length xs"
  shows "sum_list (map g (xs[i := a, j := b]))
           = sum_list (map g xs) - g (xs ! i) - g (xs ! j) + g a + g b"
  using assms by (simp add: map_update sum_list_update_real nth_list_update)

lemma transfer64_exact:
  assumes ij: "i < j" "j < length rs"
    and sd: "cbAfter64 (rs ! i) = Fin s" "cbAfter64 (rs ! j) = Fin d" and sg: "0 < s" "d < 0"
    and ex: "exact_state c rs"
  shows "exact_state c (transfer64 rs i j)"
proof -
  let ?g = "\<lambda>m. \<bar>val (cbAfter64 m)\<bar>"
  define t where "t = min s \<bar>d\<bar>"
  from ij have mem: "rs ! i \<in> set rs" "rs ! j \<in> set rs" by simp_all
  from ex have all: "\<forall>m \<in> set rs. int_valued (cbAfter64 m)" by (simp add: exact_state_def)
  from all mem(1) sd(1) have iS: "s \<in> \<int>" by (metis int_valued_Fin)
  from all mem(2) sd(2) have iD: "d \<in> \<int>" by (metis int_valued_Fin)
  have "?g (rs ! i) \<le> sum_list (map ?g rs)" "?g (rs ! j) \<le> sum_list (map ?g rs)"
    using mem by (intro elem_le_sum_list; simp)+
  with ex sd have bd: "\<bar>s\<bar> \<le> 2 ^ 53" "\<bar>d\<bar> \<le> 2 ^ 53"
    by (simp_all add: exact_state_def)
  have "\<bar>d\<bar> = - d" using sg by simp
  then have "\<bar>d\<bar> \<in> \<int>" using iD by simp
  then have tv: "t \<in> \<int>" using iS by (simp add: t_def min_def)
  have t0: "0 \<le> t" "t \<le> s" "d + t \<le> 0" using sg by (simp_all add: t_def min_def)
  have mt: "- t \<in> \<int>" using tv by simp
  have s': "fsub (Fin s) (Fin t) = Fin (s - t)"
    using fadd_exact[OF iS mt] t0 bd by (simp add: fsub_def)
  have d': "fadd (Fin d) (Fin t) = Fin (d + t)"
    using fadd_exact[OF iD tv] t0 bd sg by simp
  have st: "s - t \<in> \<int>" "d + t \<in> \<int>"
    using iS iD tv by simp_all
  have tr: "transfer64 rs i j = rs[i := (rs ! i)\<lparr>cbAfter64 := Fin (s - t)\<rparr>,
                                  j := (rs ! j)\<lparr>cbAfter64 := Fin (d + t)\<rparr>]"
    unfolding transfer64_eq[OF sd] t_def[symmetric] s' d' ..
  let ?A = "(rs ! i)\<lparr>cbAfter64 := Fin (s - t)\<rparr>" and ?B = "(rs ! j)\<lparr>cbAfter64 := Fin (d + t)\<rparr>"
  have sub: "set (transfer64 rs i j) \<subseteq> insert ?B (insert ?A (set rs))"
    unfolding tr
    using set_update_subset_insert[of "rs[i := ?A]" j ?B] set_update_subset_insert[of rs i ?A]
    by blast
  have a: "\<forall>m \<in> set (transfer64 rs i j). int_valued (cbAfter64 m)"
  proof
    fix m assume "m \<in> set (transfer64 rs i j)"
    with sub have "m = ?B \<or> m = ?A \<or> m \<in> set rs" by blast
    then show "int_valued (cbAfter64 m)"
      using all st by auto
  qed
  have b: "sum_list (map ?g (transfer64 rs i j)) \<le> sum_list (map ?g rs)"
    unfolding tr sum_list_two_updates[OF ij] using sd sg t0 by simp
  have c: "(\<Sum>m\<leftarrow>transfer64 rs i j. val (cbAfter64 m)) = (\<Sum>m\<leftarrow>rs. val (cbAfter64 m))"
    unfolding tr sum_list_two_updates[OF ij] using sd by simp
  from a b c ex show ?thesis by (simp add: exact_state_def)
qed

subsection \<open>An invariant rule for the loop\<close>

text \<open>
  While every balance is finite and within its entry value, one of the two members of
  a transfer ends at zero, a cursor moves, and the loop returns. Every property \<open>P\<close>
  that one transfer between finite balances preserves holds on exit.
\<close>

lemma alloc_loop64_rule:
  assumes "P rs" and "list_all within_entry64 rs" and "0 \<le> si" and "di < int (length rs)"
    and step: "\<And>rs i j s d. P rs \<Longrightarrow> list_all within_entry64 rs \<Longrightarrow> i < j \<Longrightarrow> j < length rs \<Longrightarrow>
                 cbAfter64 (rs ! i) = Fin s \<Longrightarrow> cbAfter64 (rs ! j) = Fin d \<Longrightarrow>
                 0 < s \<Longrightarrow> d < 0 \<Longrightarrow> P (transfer64 rs i j)"
  shows "\<exists>rs' si' di'. alloc_loop64 rs si di = Some (Inr (rs', si', di')) \<and> P rs'
           \<and> list_all within_entry64 rs' \<and> di' \<le> si' \<and> length rs' = length rs"
  using assms(1-4)
proof (induction "nat (di - si)" arbitrary: rs si di rule: less_induct)
  case less
  show ?case
  proof (cases "si < di")
    case False
    then show ?thesis using less.prems by (simp add: alloc_loop64.simps)
  next
    case True
    let ?s = "rs ! nat si" and ?d = "rs ! nat di"
    from True less.prems have rng:
      "array_get rs si = Some ?s" "array_get rs di = Some ?d"
      by (simp_all add: array_get_def)
    from True less.prems have "within_entry64 ?s" "within_entry64 ?d"
      by (simp_all add: list_all_length)
    then obtain s d where sd: "cbAfter64 ?s = Fin s" "cbAfter64 ?d = Fin d"
      by (metis within_entry64_def)
    consider (a) "s \<le> 0" | (b) "0 < s" "0 \<le> d" | (c) "0 < s" "d < 0"
      by linarith
    then show ?thesis
    proof cases
      case a
      have eq: "alloc_loop64 rs si di = alloc_loop64 rs (si + 1) di"
        using True rng a sd by (subst alloc_loop64.simps) simp
      have "\<exists>rs' si' di'. alloc_loop64 rs (si + 1) di = Some (Inr (rs', si', di')) \<and> P rs'
           \<and> list_all within_entry64 rs' \<and> di' \<le> si' \<and> length rs' = length rs"
        using True less.prems by (intro less.hyps) auto
      with eq show ?thesis by simp
    next
      case b
      have eq: "alloc_loop64 rs si di = alloc_loop64 rs si (di - 1)"
        using True rng b sd by (subst alloc_loop64.simps) simp
      have "\<exists>rs' si' di'. alloc_loop64 rs si (di - 1) = Some (Inr (rs', si', di')) \<and> P rs'
           \<and> list_all within_entry64 rs' \<and> di' \<le> si' \<and> length rs' = length rs"
        using True less.prems by (intro less.hyps) auto
      with eq show ?thesis by simp
    next
      case c
      define t where "t = min s \<bar>d\<bar>"
      define s' where "s' = fsub (Fin s) (Fin t)"
      define d' where "d' = fadd (Fin d) (Fin t)"
      define si' where "si' = (if fle s' (Fin 0) then si + 1 else si)"
      define di' where "di' = (if fle (Fin 0) d' then di - 1 else di)"
      have ij: "nat si < nat di" "nat di < length rs" using True less.prems by auto
      have tr: "transfer64 rs (nat si) (nat di)
                  = rs[nat si := ?s\<lparr>cbAfter64 := s'\<rparr>, nat di := ?d\<lparr>cbAfter64 := d'\<rparr>]"
        unfolding s'_def d'_def t_def by (rule transfer64_eq[OF sd])
      have "fmin (cbAfter64 ?s) (fabs (cbAfter64 ?d)) = Fin t"
        by (simp add: sd t_def min_def)
      then have eq: "alloc_loop64 rs si di = alloc_loop64 (transfer64 rs (nat si) (nat di)) si' di'"
        using True rng c sd unfolding tr
        by (subst alloc_loop64.simps) (simp add: Let_def s'_def d'_def si'_def di'_def)
      have P': "P (transfer64 rs (nat si) (nat di))"
        using less.prems(1,2) ij sd c by (rule step)
      have W': "list_all within_entry64 (transfer64 rs (nat si) (nat di))"
        using ij sd c less.prems(2) by (rule transfer64_within)
      have "s' = Fin 0 \<or> d' = Fin 0"
        unfolding s'_def d'_def t_def using c by (rule transfer64_progress)
      then have dec: "nat (di' - si') < nat (di - si)"
        using True by (auto simp: si'_def di'_def)
      have "0 \<le> si'" "di' < int (length (transfer64 rs (nat si) (nat di)))"
        using less.prems by (auto simp: si'_def di'_def)
      from less.hyps[OF dec P' W' this]
      show ?thesis using eq by simp
    qed
  qed
qed

subsection \<open>A state that never ends\<close>

lemma alloc_loop64_stuck:
  assumes "stuck rs si di"
  shows "alloc_loop64 rs si di = None"
proof (rule ccontr)
  assume "alloc_loop64 rs si di \<noteq> None"
  then obtain y where y: "alloc_loop64 rs si di = Some y" by blast
  have "\<not> stuck rs si di"
  proof (rule alloc_loop64.raw_induct[where P = "\<lambda>rs si di y. \<not> stuck rs si di", OF _ y])
    fix f :: "PoolMember64 list \<Rightarrow> int \<Rightarrow> int
                \<Rightarrow> (error + (PoolMember64 list \<times> int \<times> int)) option"
      and results surplusIdx deficitIdx z
    assume IH: "\<And>a b c y. f a b c = Some y \<Longrightarrow> \<not> stuck a b c"
    assume body: "(if surplusIdx < deficitIdx then
        (case array_get results surplusIdx of
           None \<Rightarrow> Some (Inl TypeError)
         | Some surplus \<Rightarrow>
             if fle (cbAfter64 surplus) (Fin 0)
             then f results (surplusIdx + 1) deficitIdx
             else
               (case array_get results deficitIdx of
                  None \<Rightarrow> Some (Inl TypeError)
                | Some deficit \<Rightarrow>
                    if fle (Fin 0) (cbAfter64 deficit)
                    then f results surplusIdx (deficitIdx - 1)
                    else
                      let transferAmount = fmin (cbAfter64 surplus) (fabs (cbAfter64 deficit));
                          surplus' = surplus\<lparr>cbAfter64 :=
                                       fsub (cbAfter64 surplus) transferAmount\<rparr>;
                          deficit' = deficit\<lparr>cbAfter64 :=
                                       fadd (cbAfter64 deficit) transferAmount\<rparr>;
                          results' = (results[nat surplusIdx := surplus'])
                                       [nat deficitIdx := deficit'];
                          surplusIdx' = (if fle (cbAfter64 surplus') (Fin 0)
                                         then surplusIdx + 1 else surplusIdx);
                          deficitIdx' = (if fle (Fin 0) (cbAfter64 deficit')
                                         then deficitIdx - 1 else deficitIdx)
                      in f results' surplusIdx' deficitIdx'))
      else Some (Inr (results, surplusIdx, deficitIdx))) = Some z"
    show "\<not> stuck results surplusIdx deficitIdx"
    proof
      assume st: "stuck results surplusIdx deficitIdx"
      let ?s = "results ! nat surplusIdx" and ?d = "results ! nat deficitIdx"
      from st have g: "array_get results surplusIdx = Some ?s"
        "array_get results deficitIdx = Some ?d"
        and n: "cbAfter64 ?s = NaN" "cbAfter64 ?d = NaN" and lt: "surplusIdx < deficitIdx"
        by (simp_all add: stuck_def array_get_def)
      have s: "?s\<lparr>cbAfter64 := NaN\<rparr> = ?s" "?d\<lparr>cbAfter64 := NaN\<rparr> = ?d"
        using n by simp_all
      from body have "f results surplusIdx deficitIdx = Some z"
        using lt by (simp add: g n Let_def fsub_def s)
      from IH[OF this] st show False by simp
    qed
  qed
  with assms show False by simp
qed

subsection \<open>Sorting, initialisation and the allocator as a whole\<close>

lemma mset_insort64: "mset (insort64 x ys) = add_mset x (mset ys)"
  by (induction ys) simp_all

lemma sorted_members64_mset: "mset (sorted_members64 ms) = mset ms"
  unfolding sorted_members64_def by (induction ms) (simp_all add: mset_insort64)

lemma init_results64_fields:
  "map shipId64 (init_results64 ms) = map shipId64 ms"
  "map cbBefore64 (init_results64 ms) = map cbBefore64 ms"
  "map cbAfter64 (init_results64 ms) = map cbBefore64 ms"
  "length (init_results64 ms) = length ms"
  by (simp_all add: init_results64_def comp_def)

lemma finite_double_within:
  assumes "finite_double b"
  shows "within_entry64 \<lparr>shipId64 = sid, cbBefore64 = b, cbAfter64 = b\<rparr>"
  using assms by (cases b) (simp_all add: within_entry64_def)

lemma init_results64_within:
  assumes "\<forall>m \<in> set ms. finite_double (cbBefore64 m)"
  shows "list_all within_entry64 (init_results64 ms)"
  using assms by (simp add: init_results64_def list_all_iff finite_double_within)

lemma allocatePoolBalances64_props:
  assumes fin: "\<forall>m \<in> set ms. finite_double (cbBefore64 m)"
  shows "\<exists>rs si di. alloc_loop64 (init_results64 (sorted_members64 ms)) 0
                 (int (length (init_results64 (sorted_members64 ms))) - 1)
                   = Some (Inr (rs, si, di))
     \<and> di \<le> si
     \<and> allocatePoolBalances64 ms = Some (Inr rs)
     \<and> length rs = length ms
     \<and> map shipId64 rs = map shipId64 (sorted_members64 ms)
     \<and> map cbBefore64 rs = map cbBefore64 (sorted_members64 ms)
     \<and> list_all within_entry64 rs"
proof -
  let ?r0 = "init_results64 (sorted_members64 ms)"
  let ?P = "\<lambda>rs'. map shipId64 rs' = map shipId64 ?r0 \<and> map cbBefore64 rs' = map cbBefore64 ?r0"
  have "set (sorted_members64 ms) = set ms"
    using sorted_members64_mset[of ms] by (rule mset_eq_setD)
  with fin have w0: "list_all within_entry64 ?r0"
    by (intro init_results64_within) simp
  have "\<exists>rs' si' di'. alloc_loop64 ?r0 0 (int (length ?r0) - 1) = Some (Inr (rs', si', di'))
          \<and> ?P rs' \<and> list_all within_entry64 rs' \<and> di' \<le> si' \<and> length rs' = length ?r0"
  proof (rule alloc_loop64_rule[where P = ?P, OF _ w0])
    show "?P ?r0" by simp
    show "(0::int) \<le> 0" by simp
    show "int (length ?r0) - 1 < int (length ?r0)" by simp
  next
    fix xs :: "PoolMember64 list" and i j :: nat and s d :: real
    assume "?P xs"
    then show "?P (transfer64 xs i j)"
      by (simp add: transfer64_shipId transfer64_cbBefore)
  qed
  then obtain rs si di where
    l: "alloc_loop64 ?r0 0 (int (length ?r0) - 1) = Some (Inr (rs, si, di))" and "di \<le> si"
    and "length rs = length ?r0" "?P rs" "list_all within_entry64 rs"
    by blast
  moreover have "allocatePoolBalances64 ms = Some (Inr rs)"
    using l by (simp add: allocatePoolBalances64_def Let_def)
  moreover have "length ?r0 = length ms"
    using mset_eq_length[OF sorted_members64_mset[of ms]] by (simp add: init_results64_fields)
  ultimately show ?thesis
    by (auto simp: init_results64_fields)
qed

section \<open>Binary64: validation\<close>

lemma foldl_fadd_map:
  "foldl (\<lambda>s m. fadd s (f m)) a ms = foldl fadd a (map f ms)"
  by (induction ms arbitrary: a) simp_all

lemma validatePool64_errors:
  "errors (validatePool64 ms) =
     (if flt (sum64 (map cbBefore64 ms)) (Fin 0) then [rule1_error] else [])
     @ map (\<lambda>m. rule2_error (shipId64 m))
         (filter (\<lambda>m. flt (cbBefore64 m) (Fin 0) \<and> flt (cbAfter64 m) (cbBefore64 m)) ms)
     @ map (\<lambda>m. rule3_error (shipId64 m))
         (filter (\<lambda>m. flt (Fin 0) (cbBefore64 m) \<and> flt (cbAfter64 m) (Fin 0)) ms)"
  by (simp add: validatePool64_def Let_def foldl_push foldl_fadd_map[symmetric] sum64_def)

lemma validatePool64_valid: "valid (validatePool64 ms) = (errors (validatePool64 ms) = [])"
  by (simp add: validatePool64_def Let_def)

lemma within_entry64_rules:
  assumes "within_entry64 m"
  shows "\<not> (flt (cbBefore64 m) (Fin 0) \<and> flt (cbAfter64 m) (cbBefore64 m))"
    and "\<not> (flt (Fin 0) (cbBefore64 m) \<and> flt (cbAfter64 m) (Fin 0))"
proof -
  from assms obtain b a where "cbBefore64 m = Fin b" "cbAfter64 m = Fin a"
    "min 0 b \<le> a" "a \<le> max 0 b"
    by (rule within_entry64D)
  then show "\<not> (flt (cbBefore64 m) (Fin 0) \<and> flt (cbAfter64 m) (cbBefore64 m))"
    and "\<not> (flt (Fin 0) (cbBefore64 m) \<and> flt (cbAfter64 m) (Fin 0))"
    by (simp_all add: min_def max_def split: if_splits)
qed

lemma within_entry64_no_violation:
  assumes "list_all within_entry64 rs"
  shows "filter (\<lambda>m. flt (cbBefore64 m) (Fin 0) \<and> flt (cbAfter64 m) (cbBefore64 m)) rs = []"
    and "filter (\<lambda>m. flt (Fin 0) (cbBefore64 m) \<and> flt (cbAfter64 m) (Fin 0)) rs = []"
  using assms within_entry64_rules
  by (simp_all add: filter_empty_conv list_all_iff)

subsection \<open>Members and signs\<close>

text \<open>
  For inputs of finite doubles the binary64 allocator, like the exact one, returns the
  members it was given and moves no balance past zero.
\<close>

lemma allocatePoolBalances64_same_members:
  assumes "\<forall>m \<in> set members. finite_double (cbBefore64 m)"
  shows "\<exists>results. allocatePoolBalances64 members = Some (Inr results)
           \<and> mset (map (\<lambda>m. (shipId64 m, cbBefore64 m)) results)
               = mset (map (\<lambda>m. (shipId64 m, cbBefore64 m)) members)"
proof -
  from allocatePoolBalances64_props[OF assms] obtain rs where
    a: "allocatePoolBalances64 members = Some (Inr rs)"
    and s: "map shipId64 rs = map shipId64 (sorted_members64 members)"
    and b: "map cbBefore64 rs = map cbBefore64 (sorted_members64 members)"
    by blast
  have "map (\<lambda>m. (shipId64 m, cbBefore64 m)) rs
          = map (\<lambda>m. (shipId64 m, cbBefore64 m)) (sorted_members64 members)"
    by (simp only: pair_map_zip s b)
  moreover have "mset (map (\<lambda>m. (shipId64 m, cbBefore64 m)) (sorted_members64 members))
          = mset (map (\<lambda>m. (shipId64 m, cbBefore64 m)) members)"
    using sorted_members64_mset[of members] by (metis mset_map)
  ultimately have "mset (map (\<lambda>m. (shipId64 m, cbBefore64 m)) rs)
          = mset (map (\<lambda>m. (shipId64 m, cbBefore64 m)) members)"
    by (simp only:)
  with a show ?thesis by blast
qed

lemma within_entry64_signs:
  assumes "within_entry64 m"
  shows "flt (Fin 0) (cbBefore64 m) \<longrightarrow> fle (Fin 0) (cbAfter64 m)"
    and "flt (cbBefore64 m) (Fin 0) \<longrightarrow> fle (cbAfter64 m) (Fin 0)"
proof -
  from assms obtain b a where "cbBefore64 m = Fin b" "cbAfter64 m = Fin a"
    "min 0 b \<le> a" "a \<le> max 0 b"
    by (rule within_entry64D)
  then show "flt (Fin 0) (cbBefore64 m) \<longrightarrow> fle (Fin 0) (cbAfter64 m)"
    and "flt (cbBefore64 m) (Fin 0) \<longrightarrow> fle (cbAfter64 m) (Fin 0)"
    by (simp_all add: min_def max_def split: if_splits)
qed

lemma allocatePoolBalances64_keeps_sign:
  assumes "\<forall>m \<in> set members. finite_double (cbBefore64 m)"
  shows "\<exists>results. allocatePoolBalances64 members = Some (Inr results)
           \<and> (\<forall>m \<in> set results.
                 (flt (Fin 0) (cbBefore64 m) \<longrightarrow> fle (Fin 0) (cbAfter64 m))
                 \<and> (flt (cbBefore64 m) (Fin 0) \<longrightarrow> fle (cbAfter64 m) (Fin 0)))"
proof -
  from allocatePoolBalances64_props[OF assms] obtain rs where
    a: "allocatePoolBalances64 members = Some (Inr rs)" and w: "list_all within_entry64 rs"
    by blast
  from w have "\<forall>m \<in> set rs.
                 (flt (Fin 0) (cbBefore64 m) \<longrightarrow> fle (Fin 0) (cbAfter64 m))
                 \<and> (flt (cbBefore64 m) (Fin 0) \<longrightarrow> fle (cbAfter64 m) (Fin 0))"
    by (simp add: list_all_iff within_entry64_signs)
  with a show ?thesis by blast
qed

section \<open>Exact arithmetic: properties of the compliance service\<close>

text \<open>
  C8. \<open>isCompliant x\<close> is true exactly when \<open>x \<le> 89.3368\<close>; at the boundary value
  \<open>89.3368\<close> itself it is true.
\<close>

theorem isCompliant_iff:
  "isCompliant x = (x \<le> 89.3368) \<and> isCompliant 89.3368"
  by (simp add: isCompliant_def TARGET_INTENSITY_2025_def)

section \<open>Exact arithmetic: properties of validation\<close>


text \<open>
  Scenario B of the specification: the pool \<open>[{A, +10}, {B, -40}]\<close> has sum \<open>-30\<close>;
  allocated and then validated, it is rejected with the error of rule 1 alone.
\<close>

lemma scenario_B:
  "allocatePoolBalances [\<lparr>shipId = ''A'', cbBefore = 10\<rparr>, \<lparr>shipId = ''B'', cbBefore = - 40\<rparr>]
     = Inr [\<lparr>shipId = ''A'', cbBefore = 10, cbAfter = 0\<rparr>,
            \<lparr>shipId = ''B'', cbBefore = - 40, cbAfter = - 30\<rparr>]
   \<and> validatePool [\<lparr>shipId = ''A'', cbBefore = 10, cbAfter = 0\<rparr>,
                    \<lparr>shipId = ''B'', cbBefore = - 40, cbAfter = - 30\<rparr>]
     = \<lparr>valid = False, errors = [''Total pool sum must be >= 0'']\<rparr>"
  by (simp add: allocatePoolBalances_def sorted_members_def init_results_def alloc_loop.simps array_get_def
        validatePool_def rule1_error_def)

text \<open>
  All three rules at once: a pool in aggregate deficit, with a deficit member made
  worse and a surplus member pushed below zero, gets the three errors, in the order of
  the rules.
\<close>

lemma validatePool_three_errors:
  "validatePool [\<lparr>shipId = ''P'', cbBefore = - 10, cbAfter = - 20\<rparr>,
                 \<lparr>shipId = ''Q'', cbBefore = 5, cbAfter = - 100\<rparr>]
     = \<lparr>valid = False,
        errors = [''Total pool sum must be >= 0'',
                  ''Ship P would exit worse than entry'',
                  ''Ship Q would exit with negative CB'']\<rparr>"
  by (simp add: validatePool_def rule1_error_def rule2_error_def rule3_error_def)

text \<open>
  C10. \<open>validatePool\<close> on the empty list of members returns
  \<open>{valid: true, errors: []}\<close>.
\<close>

theorem validatePool_empty:
  "validatePool [] = \<lparr>valid = True, errors = []\<rparr>"
  by (simp add: validatePool_def)

section \<open>Exact arithmetic: properties of allocation\<close>



text \<open>
  C3. For every list of members whose \<open>cbBefore\<close> sum to at least \<open>0\<close> and whose
  surplus covers the deficits, in the result of \<open>allocatePoolBalances\<close> every member
  with \<open>cbBefore > 0\<close> has \<open>cbAfter \<ge> 0\<close> and every member with \<open>cbBefore < 0\<close> has
  \<open>cbAfter \<le> 0\<close>.
\<close>

theorem allocatePoolBalances_keeps_sign:
  assumes "0 \<le> sum_list (map cbBefore members)"
    and "(\<Sum>m\<leftarrow>filter (\<lambda>m. cbBefore m < 0) members. \<bar>cbBefore m\<bar>)
           \<le> (\<Sum>m\<leftarrow>filter (\<lambda>m. 0 < cbBefore m) members. cbBefore m)"
  shows "\<exists>results. allocatePoolBalances members = Inr results
           \<and> (\<forall>m \<in> set results. (0 < cbBefore m \<longrightarrow> 0 \<le> cbAfter m)
                                  \<and> (cbBefore m < 0 \<longrightarrow> cbAfter m \<le> 0))"
proof -
  from allocatePoolBalances_props[of members] obtain rs where
    a: "allocatePoolBalances members = Inr rs" and w: "list_all within_entry rs"
    by blast
  from w have "\<forall>m \<in> set rs. (0 < cbBefore m \<longrightarrow> 0 \<le> cbAfter m)
                              \<and> (cbBefore m < 0 \<longrightarrow> cbAfter m \<le> 0)"
    by (simp add: list_all_iff within_entry_signs)
  with a show ?thesis by blast
qed

theorem allocatePoolBalances_keeps_sign_witness:
  "0 \<le> sum_list (map cbBefore [\<lparr>shipId = ''S1'', cbBefore = - 20\<rparr>, \<lparr>shipId = ''S2'', cbBefore = 70\<rparr>])
   \<and> (\<Sum>m\<leftarrow>filter (\<lambda>m. cbBefore m < 0) [\<lparr>shipId = ''S1'', cbBefore = - 20\<rparr>, \<lparr>shipId = ''S2'', cbBefore = 70\<rparr>]. \<bar>cbBefore m\<bar>)
           \<le> (\<Sum>m\<leftarrow>filter (\<lambda>m. 0 < cbBefore m) [\<lparr>shipId = ''S1'', cbBefore = - 20\<rparr>, \<lparr>shipId = ''S2'', cbBefore = 70\<rparr>]. cbBefore m)
   \<and> (\<exists>results. allocatePoolBalances [\<lparr>shipId = ''S1'', cbBefore = - 20\<rparr>, \<lparr>shipId = ''S2'', cbBefore = 70\<rparr>] = Inr results
           \<and> (\<forall>m \<in> set results. (0 < cbBefore m \<longrightarrow> 0 \<le> cbAfter m)
                                  \<and> (cbBefore m < 0 \<longrightarrow> cbAfter m \<le> 0)))"
  using allocatePoolBalances_keeps_sign[of "[\<lparr>shipId = ''S1'', cbBefore = - 20\<rparr>, \<lparr>shipId = ''S2'', cbBefore = 70\<rparr>]"]
  by simp

text \<open>
  C7. Scenario A of the specification: \<open>allocatePoolBalances\<close> on
  \<open>[{A, +100}, {B, -40}, {C, -30}]\<close> gives \<open>cbAfter\<close> \<open>30\<close> to A, \<open>0\<close> to B and
  \<open>0\<close> to C, and \<open>validatePool\<close> on that result is valid.
\<close>

theorem scenario_A:
  "allocatePoolBalances [\<lparr>shipId = ''A'', cbBefore = 100\<rparr>,
                         \<lparr>shipId = ''B'', cbBefore = - 40\<rparr>,
                         \<lparr>shipId = ''C'', cbBefore = - 30\<rparr>]
     = Inr [\<lparr>shipId = ''A'', cbBefore = 100, cbAfter = 30\<rparr>,
            \<lparr>shipId = ''C'', cbBefore = - 30, cbAfter = 0\<rparr>,
            \<lparr>shipId = ''B'', cbBefore = - 40, cbAfter = 0\<rparr>]
   \<and> validatePool [\<lparr>shipId = ''A'', cbBefore = 100, cbAfter = 30\<rparr>,
                    \<lparr>shipId = ''C'', cbBefore = - 30, cbAfter = 0\<rparr>,
                    \<lparr>shipId = ''B'', cbBefore = - 40, cbAfter = 0\<rparr>]
     = \<lparr>valid = True, errors = []\<rparr>"
  by (simp add: allocatePoolBalances_def sorted_members_def init_results_def alloc_loop.simps array_get_def
        validatePool_def)

section \<open>Binary64: properties of the compliance service\<close>

text \<open>
  C4 as the specification states it: \<open>calculateComplianceBalance(91.0, 5000)\<close> returns
  \<open>-340,962,000\<close>. It does not.
\<close>

theorem scenario_C64_stated_value_refuted:
  "calculateComplianceBalance64 (Fin 91.0) (Fin 5000) \<noteq> Fin (- 340962000)"
  by (simp add: calculateComplianceBalance64_def TARGET_INTENSITY_2025_64_def
        ENERGY_CONVERSION_FACTOR_64_def binary64_eval)

text \<open>
  C4, amended. \<open>calculateComplianceBalance(91.0, 5000)\<close> returns the double
  \<open>-5720292458496011 / 2\<^sup>2\<^sup>4\<close>, printed \<open>-340956000.00000066\<close>: it is within
  \<open>10\<^sup>-\<^sup>6\<close> of \<open>-340,956,000\<close>, the exact value of
  \<open>(89.3368 - 91.0) * 5000 * 41000\<close>, and it is a deficit. The arguments \<open>91.0\<close> and
  \<open>5000\<close> are doubles.
\<close>

theorem scenario_C64:
  "calculateComplianceBalance64 (Fin 91.0) (Fin 5000) = Fin (- 5720292458496011 / 2 ^ 24)
   \<and> \<bar>- 5720292458496011 / 2 ^ 24 - (89.3368 - 91.0) * 5000 * 41000\<bar> < (1 / 10 ^ 6 :: real)
   \<and> (89.3368 - 91.0) * 5000 * 41000 = (- 340956000 :: real)
   \<and> flt (calculateComplianceBalance64 (Fin 91.0) (Fin 5000)) (Fin 0)
   \<and> is_double 91.0 \<and> is_double 5000"
  by (simp add: calculateComplianceBalance64_def TARGET_INTENSITY_2025_64_def
        ENERGY_CONVERSION_FACTOR_64_def binary64_eval)

section \<open>Binary64: properties of allocation\<close>

text \<open>
  C6 as the specification states it: \<open>allocatePoolBalances\<close> terminates on every
  input. On \<open>[{A, 1}, {B, NaN}]\<close> the first transfer makes both balances NaN, after
  which no comparison holds and no cursor moves; on \<open>[{A, Infinity}, {B, -Infinity}]\<close>
  likewise. The loop does not return.
\<close>

theorem allocatePoolBalances64_never_returns:
  "allocatePoolBalances64 [\<lparr>shipId64 = ''A'', cbBefore64 = Fin 1\<rparr>,
                           \<lparr>shipId64 = ''B'', cbBefore64 = NaN\<rparr>] = None
   \<and> allocatePoolBalances64 [\<lparr>shipId64 = ''A'', cbBefore64 = PosInf\<rparr>,
                             \<lparr>shipId64 = ''B'', cbBefore64 = NegInf\<rparr>] = None"
proof
  let ?r = "[\<lparr>shipId64 = ''A'', cbBefore64 = Fin 1, cbAfter64 = Fin 1\<rparr>,
             \<lparr>shipId64 = ''B'', cbBefore64 = NaN, cbAfter64 = NaN\<rparr>]"
  let ?r' = "[\<lparr>shipId64 = ''A'', cbBefore64 = Fin 1, cbAfter64 = NaN\<rparr>,
              \<lparr>shipId64 = ''B'', cbBefore64 = NaN, cbAfter64 = NaN\<rparr>]"
  have "alloc_loop64 ?r 0 1 = alloc_loop64 ?r' 0 1"
    by (subst alloc_loop64.simps) (simp add: array_get_def fsub_def)
  also have "\<dots> = None"
    by (rule alloc_loop64_stuck) (simp add: stuck_def)
  finally show "allocatePoolBalances64 [\<lparr>shipId64 = ''A'', cbBefore64 = Fin 1\<rparr>,
                           \<lparr>shipId64 = ''B'', cbBefore64 = NaN\<rparr>] = None"
    by (simp add: allocatePoolBalances64_def sorted_members64_def init_results64_def
          compare64_def fsub_def)
next
  let ?r = "[\<lparr>shipId64 = ''A'', cbBefore64 = PosInf, cbAfter64 = PosInf\<rparr>,
             \<lparr>shipId64 = ''B'', cbBefore64 = NegInf, cbAfter64 = NegInf\<rparr>]"
  let ?r' = "[\<lparr>shipId64 = ''A'', cbBefore64 = PosInf, cbAfter64 = NaN\<rparr>,
              \<lparr>shipId64 = ''B'', cbBefore64 = NegInf, cbAfter64 = NaN\<rparr>]"
  have "alloc_loop64 ?r 0 1 = alloc_loop64 ?r' 0 1"
    by (subst alloc_loop64.simps) (simp add: array_get_def fsub_def)
  also have "\<dots> = None"
    by (rule alloc_loop64_stuck) (simp add: stuck_def)
  finally show "allocatePoolBalances64 [\<lparr>shipId64 = ''A'', cbBefore64 = PosInf\<rparr>,
                             \<lparr>shipId64 = ''B'', cbBefore64 = NegInf\<rparr>] = None"
    by (simp add: allocatePoolBalances64_def sorted_members64_def init_results64_def
          compare64_def fsub_def)
qed

text \<open>
  C6, amended. On every input whose \<open>cbBefore\<close> are finite doubles,
  \<open>allocatePoolBalances\<close> returns: the loop ends without an error, with the cursors met
  or crossed (\<open>deficitIdx \<le> surplusIdx\<close>), the array it leaves is the result, and the
  result has one member, carrying a \<open>cbAfter\<close>, for each member of the input.
\<close>

theorem allocatePoolBalances64_returns:
  assumes "\<forall>m \<in> set members. finite_double (cbBefore64 m)"
  shows "\<exists>results surplusIdx deficitIdx.
     alloc_loop64 (init_results64 (sorted_members64 members)) 0
       (int (length (init_results64 (sorted_members64 members))) - 1)
       = Some (Inr (results, surplusIdx, deficitIdx))
     \<and> deficitIdx \<le> surplusIdx
     \<and> allocatePoolBalances64 members = Some (Inr results)
     \<and> length results = length members"
  using allocatePoolBalances64_props[OF assms]
  by (elim exE conjE) (intro exI conjI; assumption)

theorem allocatePoolBalances64_returns_witness:
  "finite_double (round64 0.7) \<and> finite_double (round64 (- 2.9))
   \<and> (\<exists>results surplusIdx deficitIdx.
     alloc_loop64 (init_results64 (sorted_members64 [\<lparr>shipId64 = ''A'', cbBefore64 = round64 0.7\<rparr>,
      \<lparr>shipId64 = ''B'', cbBefore64 = round64 (- 2.9)\<rparr>])) 0
       (int (length (init_results64 (sorted_members64 [\<lparr>shipId64 = ''A'', cbBefore64 = round64 0.7\<rparr>,
      \<lparr>shipId64 = ''B'', cbBefore64 = round64 (- 2.9)\<rparr>]))) - 1)
       = Some (Inr (results, surplusIdx, deficitIdx))
     \<and> deficitIdx \<le> surplusIdx
     \<and> allocatePoolBalances64 [\<lparr>shipId64 = ''A'', cbBefore64 = round64 0.7\<rparr>,
      \<lparr>shipId64 = ''B'', cbBefore64 = round64 (- 2.9)\<rparr>] = Some (Inr results)
     \<and> length results = length [\<lparr>shipId64 = ''A'', cbBefore64 = round64 0.7\<rparr>,
      \<lparr>shipId64 = ''B'', cbBefore64 = round64 (- 2.9)\<rparr>])"
  using allocatePoolBalances64_returns[of "[\<lparr>shipId64 = ''A'', cbBefore64 = round64 0.7\<rparr>,
      \<lparr>shipId64 = ''B'', cbBefore64 = round64 (- 2.9)\<rparr>]"]
  by (simp add: binary64_eval)

text \<open>
  C2 as the specification states it: the sum of \<open>cbAfter\<close> over the result equals the
  sum of \<open>cbBefore\<close> over the input. On \<open>[{A, -3.0}, {B, -2.9}, {C, 0.7}]\<close> the result
  is \<open>C 0\<close>, \<open>B -2.9\<close>, \<open>A -2.3\<close>: the \<open>cbAfter\<close> sum to \<open>-5.199999999999999\<close>, the
  \<open>cbBefore\<close> to \<open>-5.2\<close>, in the order of the input and in the order of the result.
\<close>

theorem allocatePoolBalances64_total_not_conserved:
  "allocatePoolBalances64
     [\<lparr>shipId64 = ''A'', cbBefore64 = round64 (- 3.0)\<rparr>,
      \<lparr>shipId64 = ''B'', cbBefore64 = round64 (- 2.9)\<rparr>,
      \<lparr>shipId64 = ''C'', cbBefore64 = round64 0.7\<rparr>]
   = Some (Inr [\<lparr>shipId64 = ''C'', cbBefore64 = round64 0.7, cbAfter64 = Fin 0\<rparr>,
                \<lparr>shipId64 = ''B'', cbBefore64 = round64 (- 2.9), cbAfter64 = round64 (- 2.9)\<rparr>,
                \<lparr>shipId64 = ''A'', cbBefore64 = round64 (- 3.0),
                   cbAfter64 = Fin (- 2589569785738035 / 2 ^ 50)\<rparr>])
   \<and> sum64 [Fin 0, round64 (- 2.9), Fin (- 2589569785738035 / 2 ^ 50)]
       = Fin (- 1463669878895411 / 2 ^ 48)
   \<and> sum64 [round64 (- 3.0), round64 (- 2.9), round64 0.7] = Fin (- 5854679515581645 / 2 ^ 50)
   \<and> sum64 [round64 0.7, round64 (- 2.9), round64 (- 3.0)] = Fin (- 5854679515581645 / 2 ^ 50)
   \<and> (- 1463669878895411 / 2 ^ 48 :: real) \<noteq> - 5854679515581645 / 2 ^ 50"
  by (simp add: pool64_eval binary64_eval)

text \<open>
  C2, amended. For every input whose \<open>cbBefore\<close> are integers whose absolute values
  sum to at most \<open>2\<^sup>5\<^sup>3\<close>, so that no sum or difference is rounded, the sum of
  \<open>cbAfter\<close> over the result of \<open>allocatePoolBalances\<close> is the sum of \<open>cbBefore\<close> over
  the input.
\<close>

theorem allocatePoolBalances64_conserves_integers:
  assumes iv: "\<forall>m \<in> set members. int_valued (cbBefore64 m)"
    and bd: "(\<Sum>m\<leftarrow>members. \<bar>val (cbBefore64 m)\<bar>) \<le> 2 ^ 53"
  shows "\<exists>results. allocatePoolBalances64 members = Some (Inr results)
           \<and> sum64 (map cbAfter64 results) = sum64 (map cbBefore64 members)"
proof -
  let ?ms = "sorted_members64 members"
  let ?r0 = "init_results64 ?ms"
  define c where "c = (\<Sum>m\<leftarrow>members. val (cbBefore64 m))"
  have ms: "mset ?ms = mset members" by (rule sorted_members64_mset)
  then have set: "set ?ms = set members" by (rule mset_eq_setD)
  have fd: "\<forall>m \<in> set ?ms. finite_double (cbBefore64 m)"
  proof
    fix m assume "m \<in> set ?ms"
    then have m: "m \<in> set members" using set by simp
    then have "\<bar>val (cbBefore64 m)\<bar> \<le> (\<Sum>m\<leftarrow>members. \<bar>val (cbBefore64 m)\<bar>)"
      by (intro elem_le_sum_list[where g = "\<lambda>m. \<bar>val (cbBefore64 m)\<bar>"]) simp_all
    with bd iv m show "finite_double (cbBefore64 m)"
      by (intro int_valued_finite_double) auto
  qed
  then have w0: "list_all within_entry64 ?r0" by (rule init_results64_within)
  have e0: "exact_state c ?r0"
    unfolding exact_state_def
  proof (intro conjI)
    show "\<forall>m \<in> set ?r0. int_valued (cbAfter64 m)"
      using iv set by (auto simp: init_results64_def)
    have "(\<Sum>m\<leftarrow>?r0. \<bar>val (cbAfter64 m)\<bar>) = (\<Sum>m\<leftarrow>?ms. \<bar>val (cbBefore64 m)\<bar>)"
      by (simp add: init_results64_def comp_def)
    also have "\<dots> = (\<Sum>m\<leftarrow>members. \<bar>val (cbBefore64 m)\<bar>)"
      using ms by (rule sum_list_mset_eq)
    finally show "(\<Sum>m\<leftarrow>?r0. \<bar>val (cbAfter64 m)\<bar>) \<le> 2 ^ 53" using bd by simp
    have "(\<Sum>m\<leftarrow>?r0. val (cbAfter64 m)) = (\<Sum>m\<leftarrow>?ms. val (cbBefore64 m))"
      by (simp add: init_results64_def comp_def)
    also have "\<dots> = c"
      unfolding c_def using ms by (rule sum_list_mset_eq)
    finally show "(\<Sum>m\<leftarrow>?r0. val (cbAfter64 m)) = c" .
  qed
  have "\<exists>rs' si' di'. alloc_loop64 ?r0 0 (int (length ?r0) - 1) = Some (Inr (rs', si', di'))
          \<and> exact_state c rs' \<and> list_all within_entry64 rs' \<and> di' \<le> si'
          \<and> length rs' = length ?r0"
  proof (rule alloc_loop64_rule[where P = "exact_state c", OF e0 w0])
    show "(0::int) \<le> 0" by simp
    show "int (length ?r0) - 1 < int (length ?r0)" by simp
  next
    fix xs :: "PoolMember64 list" and i j :: nat and s d :: real
    assume "exact_state c xs" "i < j" "j < length xs"
      "cbAfter64 (xs ! i) = Fin s" "cbAfter64 (xs ! j) = Fin d" "0 < s" "d < 0"
    then show "exact_state c (transfer64 xs i j)"
      by (intro transfer64_exact)
  qed
  then obtain rs si di where
    l: "alloc_loop64 ?r0 0 (int (length ?r0) - 1) = Some (Inr (rs, si, di))"
    and ex: "exact_state c rs"
    by blast
  have a: "allocatePoolBalances64 members = Some (Inr rs)"
    using l by (simp add: allocatePoolBalances64_def Let_def)
  have "sum64 (map cbAfter64 rs) = Fin (\<Sum>x\<leftarrow>map cbAfter64 rs. val x)"
    using ex by (intro sum64_exact) (simp_all add: exact_state_def comp_def)
  then have s1: "sum64 (map cbAfter64 rs) = Fin c"
    using ex by (simp add: exact_state_def comp_def)
  have "sum64 (map cbBefore64 members) = Fin (\<Sum>x\<leftarrow>map cbBefore64 members. val x)"
    using iv bd by (intro sum64_exact) (simp_all add: comp_def)
  then have s2: "sum64 (map cbBefore64 members) = Fin c"
    by (simp add: c_def comp_def)
  from a s1 s2 show ?thesis by simp
qed

theorem allocatePoolBalances64_conserves_integers_witness:
  "int_valued (Fin 100) \<and> int_valued (Fin (- 40)) \<and> int_valued (Fin (- 30))
   \<and> (\<Sum>m\<leftarrow>[\<lparr>shipId64 = ''A'', cbBefore64 = Fin 100\<rparr>,
      \<lparr>shipId64 = ''B'', cbBefore64 = Fin (- 40)\<rparr>,
      \<lparr>shipId64 = ''C'', cbBefore64 = Fin (- 30)\<rparr>]. \<bar>val (cbBefore64 m)\<bar>) \<le> 2 ^ 53
   \<and> (\<exists>results. allocatePoolBalances64 [\<lparr>shipId64 = ''A'', cbBefore64 = Fin 100\<rparr>,
      \<lparr>shipId64 = ''B'', cbBefore64 = Fin (- 40)\<rparr>,
      \<lparr>shipId64 = ''C'', cbBefore64 = Fin (- 30)\<rparr>] = Some (Inr results)
           \<and> sum64 (map cbAfter64 results) = sum64 (map cbBefore64 [\<lparr>shipId64 = ''A'', cbBefore64 = Fin 100\<rparr>,
      \<lparr>shipId64 = ''B'', cbBefore64 = Fin (- 40)\<rparr>,
      \<lparr>shipId64 = ''C'', cbBefore64 = Fin (- 30)\<rparr>]))"
  using allocatePoolBalances64_conserves_integers[of "[\<lparr>shipId64 = ''A'', cbBefore64 = Fin 100\<rparr>,
      \<lparr>shipId64 = ''B'', cbBefore64 = Fin (- 40)\<rparr>,
      \<lparr>shipId64 = ''C'', cbBefore64 = Fin (- 30)\<rparr>]"]
  by simp

text \<open>
  C1 as the specification states it: when the \<open>cbBefore\<close> of the input sum to at least
  \<open>0\<close>, \<open>validatePool\<close> on the result of \<open>allocatePoolBalances\<close> is valid. The
  \<open>cbBefore\<close> of \<open>[{A, 2.8}, {B, -2.9}, {C, 2.9}, {D, -2.8}]\<close> sum to \<open>0\<close>, as doubles
  in the order of the input and as reals; \<open>validatePool\<close> adds them in the order of the
  result, gets a negative sum and reports the error of rule 1.
\<close>

theorem allocate_then_validate64_rejects_zero_sum:
  "sum64 [round64 2.8, round64 (- 2.9), round64 2.9, round64 (- 2.8)] = Fin 0
   \<and> val (round64 2.8) + val (round64 (- 2.9)) + val (round64 2.9) + val (round64 (- 2.8)) = 0
   \<and> allocatePoolBalances64
     [\<lparr>shipId64 = ''A'', cbBefore64 = round64 2.8\<rparr>,
      \<lparr>shipId64 = ''B'', cbBefore64 = round64 (- 2.9)\<rparr>,
      \<lparr>shipId64 = ''C'', cbBefore64 = round64 2.9\<rparr>,
      \<lparr>shipId64 = ''D'', cbBefore64 = round64 (- 2.8)\<rparr>]
   = Some (Inr [\<lparr>shipId64 = ''C'', cbBefore64 = round64 2.9, cbAfter64 = Fin 0\<rparr>,
                \<lparr>shipId64 = ''A'', cbBefore64 = round64 2.8, cbAfter64 = Fin 0\<rparr>,
                \<lparr>shipId64 = ''D'', cbBefore64 = round64 (- 2.8), cbAfter64 = Fin 0\<rparr>,
                \<lparr>shipId64 = ''B'', cbBefore64 = round64 (- 2.9), cbAfter64 = Fin 0\<rparr>])
   \<and> validatePool64
         [\<lparr>shipId64 = ''C'', cbBefore64 = round64 2.9, cbAfter64 = Fin 0\<rparr>,
          \<lparr>shipId64 = ''A'', cbBefore64 = round64 2.8, cbAfter64 = Fin 0\<rparr>,
          \<lparr>shipId64 = ''D'', cbBefore64 = round64 (- 2.8), cbAfter64 = Fin 0\<rparr>,
          \<lparr>shipId64 = ''B'', cbBefore64 = round64 (- 2.9), cbAfter64 = Fin 0\<rparr>]
       = \<lparr>valid = False, errors = [''Total pool sum must be >= 0'']\<rparr>"
  by (simp add: pool64_eval binary64_eval rule1_error_def)

text \<open>
  C1, amended. For every input whose \<open>cbBefore\<close> are finite doubles, \<open>validatePool\<close> on
  the result of \<open>allocatePoolBalances\<close> reports no error of rule 2 or rule 3; the
  result carries the \<open>cbBefore\<close> of the input, in sorted order, and \<open>valid\<close> is true
  exactly when their sum as \<open>validatePool\<close> computes it, in that order, is not negative.
\<close>

theorem allocate_then_validate64:
  assumes "\<forall>m \<in> set members. finite_double (cbBefore64 m)"
  shows "\<exists>results. allocatePoolBalances64 members = Some (Inr results)
           \<and> mset (map cbBefore64 results) = mset (map cbBefore64 members)
           \<and> errors (validatePool64 results)
               = (if flt (sum64 (map cbBefore64 results)) (Fin 0) then [rule1_error] else [])
           \<and> valid (validatePool64 results)
               = (\<not> flt (sum64 (map cbBefore64 results)) (Fin 0))"
proof -
  from allocatePoolBalances64_props[OF assms] obtain rs where
    a: "allocatePoolBalances64 members = Some (Inr rs)"
    and b: "map cbBefore64 rs = map cbBefore64 (sorted_members64 members)"
    and w: "list_all within_entry64 rs"
    by blast
  have m: "mset (map cbBefore64 rs) = mset (map cbBefore64 members)"
    unfolding b using sorted_members64_mset[of members] by (metis mset_map)
  have e: "errors (validatePool64 rs)
             = (if flt (sum64 (map cbBefore64 rs)) (Fin 0) then [rule1_error] else [])"
    by (simp add: validatePool64_errors within_entry64_no_violation[OF w])
  have v: "valid (validatePool64 rs) = (\<not> flt (sum64 (map cbBefore64 rs)) (Fin 0))"
    by (simp add: validatePool64_valid e)
  from a m e v show ?thesis by blast
qed

theorem allocate_then_validate64_witness:
  "finite_double (round64 2.8) \<and> finite_double (round64 (- 2.9))
   \<and> finite_double (round64 2.9) \<and> finite_double (round64 (- 2.8))
   \<and> (\<exists>results. allocatePoolBalances64 [\<lparr>shipId64 = ''A'', cbBefore64 = round64 2.8\<rparr>,
      \<lparr>shipId64 = ''B'', cbBefore64 = round64 (- 2.9)\<rparr>,
      \<lparr>shipId64 = ''C'', cbBefore64 = round64 2.9\<rparr>,
      \<lparr>shipId64 = ''D'', cbBefore64 = round64 (- 2.8)\<rparr>] = Some (Inr results)
           \<and> mset (map cbBefore64 results) = mset (map cbBefore64 [\<lparr>shipId64 = ''A'', cbBefore64 = round64 2.8\<rparr>,
      \<lparr>shipId64 = ''B'', cbBefore64 = round64 (- 2.9)\<rparr>,
      \<lparr>shipId64 = ''C'', cbBefore64 = round64 2.9\<rparr>,
      \<lparr>shipId64 = ''D'', cbBefore64 = round64 (- 2.8)\<rparr>])
           \<and> errors (validatePool64 results)
               = (if flt (sum64 (map cbBefore64 results)) (Fin 0) then [rule1_error] else [])
           \<and> valid (validatePool64 results)
               = (\<not> flt (sum64 (map cbBefore64 results)) (Fin 0)))"
  using allocate_then_validate64[of "[\<lparr>shipId64 = ''A'', cbBefore64 = round64 2.8\<rparr>,
      \<lparr>shipId64 = ''B'', cbBefore64 = round64 (- 2.9)\<rparr>,
      \<lparr>shipId64 = ''C'', cbBefore64 = round64 2.9\<rparr>,
      \<lparr>shipId64 = ''D'', cbBefore64 = round64 (- 2.8)\<rparr>]"]
  by (simp add: binary64_eval)

end
